theory Spec2Isabelle
  imports Main "HOL-Library.Multiset"
begin

section \<open>Python values used by the two scripts\<close>

text \<open>
  A cell is a Python \<open>str\<close>; one \<^typ>\<open>char\<close> stands for one code point, so the model
  covers cells over the first 256 code points and \<^const>\<open>length\<close> is Python's \<open>len\<close>.
  A row is the list of cells that \<open>csv.reader\<close> yields, a table the list of rows.
\<close>

type_synonym row = "string list"
type_synonym table = "row list"

text \<open>
  The exceptions the two scripts can raise while they transform rows. Neither script
  catches them: \<open>main\<close> handles only \<open>FileNotFoundError\<close>, \<open>IOError\<close> and \<open>OSError\<close>.
\<close>

datatype error = ValueError | IndexError | KeyError | JSONDecodeError | CsvError

subsection \<open>Insertion-ordered dictionaries\<close>

text \<open>
  A Python \<open>dict\<close> keeps its keys in insertion order; \<open>d[k] = v\<close> overwrites the value of
  a key in place and appends a new key at the end. Lookup is \<^const>\<open>map_of\<close>.
\<close>

fun dict_set :: "('k \<times> 'v) list \<Rightarrow> 'k \<Rightarrow> 'v \<Rightarrow> ('k \<times> 'v) list" where
  "dict_set [] k v = [(k, v)]"
| "dict_set ((k', v') # d) k v =
     (if k' = k then (k', v) # d else (k', v') # dict_set d k v)"

text \<open>\<open>d[k]\<close> on a \<open>defaultdict\<close>: a missing key reads as the default value.\<close>

definition default_get :: "'v \<Rightarrow> ('k \<times> 'v) list \<Rightarrow> 'k \<Rightarrow> 'v" where
  "default_get dflt d k = (case map_of d k of None \<Rightarrow> dflt | Some v \<Rightarrow> v)"

subsection \<open>Sorting, searching and indexing lists\<close>

text \<open>
  \<open>sorted(xs, key=f, reverse=True)\<close>: CPython reverses the list, sorts it with its
  stable ascending sort and reverses the result.
\<close>

definition py_sorted_reverse :: "('a \<Rightarrow> 'k::linorder) \<Rightarrow> 'a list \<Rightarrow> 'a list" where
  "py_sorted_reverse key xs = rev (sort_key key (rev xs))"

text \<open>\<open>xs.index(v)\<close>: the first position of \<open>v\<close>; \<open>None\<close> stands for the \<open>ValueError\<close>.\<close>

fun list_index :: "'a list \<Rightarrow> 'a \<Rightarrow> nat option" where
  "list_index [] v = None"
| "list_index (x # xs) v =
     (if x = v then Some 0 else map_option Suc (list_index xs v))"

text \<open>\<open>xs[pos]\<close>: a negative position counts from the end.\<close>

definition py_getitem :: "'a list \<Rightarrow> int \<Rightarrow> error + 'a" where
  "py_getitem xs pos =
     (let n = int (length xs); j = (if pos < 0 then pos + n else pos)
      in if 0 \<le> j \<and> j < n then Inr (xs ! nat j) else Inl IndexError)"

subsection \<open>Integers and their decimal text\<close>

definition digit_char :: "nat \<Rightarrow> char" where
  "digit_char d = ''0123456789'' ! d"

text \<open>\<open>str(n)\<close> for a non-negative integer.\<close>

fun str :: "nat \<Rightarrow> string" where
  "str n = (if n < 10 then [digit_char n] else str (n div 10) @ [digit_char (n mod 10)])"

declare str.simps [simp del]

definition py_isdigit :: "char \<Rightarrow> bool" where
  "py_isdigit c = (c \<in> set ''0123456789'')"

definition digit_value :: "char \<Rightarrow> nat" where
  "digit_value c = of_char c - 48"

text \<open>
  The characters \<open>int()\<close> strips from both ends of its argument, among the code points
  below 256: the ASCII white space of C and the two others that Unicode calls spaces.
\<close>

definition py_isspace :: "char \<Rightarrow> bool" where
  "py_isspace c = (of_char c \<in> {9, 10, 11, 12, 13, 32, 133, 160 :: nat})"

text \<open>
  The digit part of an integer literal: at least one digit, a single underscore allowed
  between two digits.
\<close>

fun digits_ok :: "string \<Rightarrow> bool" where
  "digits_ok [] = False"
| "digits_ok [c] = py_isdigit c"
| "digits_ok (c # d # cs) =
     (py_isdigit c \<and> (if d = CHR ''_'' then digits_ok cs else digits_ok (d # cs)))"

definition digits_value :: "string \<Rightarrow> nat" where
  "digits_value s = fold (\<lambda>c n. 10 * n + digit_value c) (filter (\<lambda>c. c \<noteq> CHR ''_'') s) 0"

text \<open>
  \<open>int(s)\<close> in base 10: surrounding whitespace is stripped, one sign is allowed, then the
  digit part. \<open>None\<close> stands for the \<open>ValueError\<close>. The limit that recent Python
  versions put on the number of digits is not modelled.
\<close>

definition py_int :: "string \<Rightarrow> int option" where
  "py_int s =
     (let t = rev (dropWhile py_isspace (rev (dropWhile py_isspace s)));
          (sign, body) = (case t of
                            [] \<Rightarrow> (1, [])
                          | c # r \<Rightarrow> if c = CHR ''-'' then (- 1, r)
                                     else if c = CHR ''+'' then (1, r) else (1, t))
      in if digits_ok body then Some (sign * int (digits_value body)) else None)"

section \<open>compress.py\<close>

subsection \<open>\<open>get_conversion_map\<close>\<close>

text \<open>
  \<open>columns_counter\<close> is a \<open>defaultdict(dict)\<close>: column index to a dictionary from cell
  value to its number of occurrences.
\<close>

type_synonym counter = "(nat \<times> (string \<times> nat) list) list"

text \<open>
  The body of the inner loop for one cell. Reading \<open>columns_counter[index]\<close> creates the
  column's dictionary when it is missing; this happens only after the length test.
\<close>

definition count_cell :: "nat \<times> string \<Rightarrow> counter \<Rightarrow> counter" where
  "count_cell = (\<lambda>(index, column_value) columns_counter.
     if length column_value \<le> 2 then columns_counter
     else let column = default_get [] columns_counter index
          in case map_of column column_value of
               Some n \<Rightarrow> dict_set columns_counter index (dict_set column column_value (n + 1))
             | None \<Rightarrow> dict_set columns_counter index (dict_set column column_value 1))"

definition count_row :: "row \<Rightarrow> counter \<Rightarrow> counter" where
  "count_row row columns_counter = fold count_cell (enumerate 0 row) columns_counter"

text \<open>
  The second loop sorts each column's \<open>(value, count)\<close> items by count, most frequent
  first, and keeps the values. The test \<open>x[0] is not ''\<close> is modelled as inequality with
  the empty string; every counted value is longer than two characters, so the test
  removes nothing.
\<close>

definition sorted_column :: "(string \<times> nat) list \<Rightarrow> string list" where
  "sorted_column column = [fst x. x \<leftarrow> py_sorted_reverse snd column, fst x \<noteq> '''']"

definition get_conversion_map :: "table \<Rightarrow> (nat \<times> string list) list" where
  "get_conversion_map input_file =
     (let columns_counter = fold count_row input_file []
      in map (\<lambda>(index, column). (index, sorted_column column)) columns_counter)"

subsection \<open>The row loop of \<open>compress_csv_and_save\<close>\<close>

text \<open>
  \<open>for index, column_value in enumerate(row)\<close> walks the positions of the row while the
  body overwrites \<open>row[index]\<close>. \<open>conversion_map\<close> is the \<open>defaultdict(list)\<close> returned by
  \<open>get_conversion_map\<close>, so a column without an entry reads as the empty list, and
  \<open>.index\<close> raises \<open>ValueError\<close> for a value that is not in the list. Such a read also
  stores the empty list under the column; the map has been dumped before and later
  reads see the same empty list, so the model keeps the map as it is.
\<close>

function encode_cells :: "(nat \<times> string list) list \<Rightarrow> nat \<Rightarrow> row \<Rightarrow> error + row" where
  "encode_cells conversion_map index row =
     (if index < length row then
        (let column_value = row ! index
         in if length column_value \<le> 2 then encode_cells conversion_map (Suc index) row
            else case list_index (default_get [] conversion_map index) column_value of
                   None \<Rightarrow> Inl ValueError
                 | Some pos \<Rightarrow>
                     encode_cells conversion_map (Suc index) (row[index := CHR ''&'' # str pos]))
      else Inr row)"
  by pat_completeness auto
termination
  by (relation "measure (\<lambda>(conversion_map, index, row). length row - index)") auto

declare encode_cells.simps [simp del]

definition encode_row :: "(nat \<times> string list) list \<Rightarrow> row \<Rightarrow> error + row" where
  "encode_row conversion_map row = encode_cells conversion_map 0 row"

text \<open>The rows are transformed in order; the first exception ends the run.\<close>

fun encode_rows :: "(nat \<times> string list) list \<Rightarrow> table \<Rightarrow> error + table" where
  "encode_rows conversion_map [] = Inr []"
| "encode_rows conversion_map (row # table) =
     (case encode_row conversion_map row of
        Inl e \<Rightarrow> Inl e
      | Inr row' \<Rightarrow> (case encode_rows conversion_map table of
                      Inl e \<Rightarrow> Inl e
                    | Inr table' \<Rightarrow> Inr (row' # table')))"

section \<open>decompress.py\<close>

text \<open>
  The decoder's \<open>conversion_map\<close> is what \<open>json.loads\<close> returns: a dictionary whose keys
  are strings. \<open>json.dump\<close> writes the integer key \<open>k\<close> as the string \<open>str(k)\<close> and a list
  of strings as it is, so loading the dumped map gives \<open>json_reload\<close> of it.
\<close>

definition json_reload :: "(nat \<times> string list) list \<Rightarrow> (string \<rightharpoonup> string list)" where
  "json_reload conversion_map = map_of (map (\<lambda>(index, column). (str index, column)) conversion_map)"

definition startswith_marker :: "string \<Rightarrow> bool" where
  "startswith_marker column_value =
     (case column_value of [] \<Rightarrow> False | c # _ \<Rightarrow> c = CHR ''&'')"

text \<open>The body of the inner loop for one cell: the value that is stored into \<open>row[index]\<close>.\<close>

definition decode_cell :: "(string \<rightharpoonup> string list) \<Rightarrow> nat \<Rightarrow> string \<Rightarrow> error + string" where
  "decode_cell conversion_map index column_value =
     (if startswith_marker column_value then
        (case conversion_map (str index) of
           None \<Rightarrow> Inl KeyError
         | Some conversion_list \<Rightarrow>
             (case py_int (drop 1 column_value) of
                None \<Rightarrow> Inl ValueError
              | Some pos \<Rightarrow> py_getitem conversion_list pos))
      else Inr column_value)"

function decode_cells :: "(string \<rightharpoonup> string list) \<Rightarrow> nat \<Rightarrow> row \<Rightarrow> error + row" where
  "decode_cells conversion_map index row =
     (if index < length row then
        (case decode_cell conversion_map index (row ! index) of
           Inl e \<Rightarrow> Inl e
         | Inr sub_text \<Rightarrow> decode_cells conversion_map (Suc index) (row[index := sub_text]))
      else Inr row)"
  by pat_completeness auto
termination
  by (relation "measure (\<lambda>(conversion_map, index, row). length row - index)") auto

declare decode_cells.simps [simp del]

definition decode_row :: "(string \<rightharpoonup> string list) \<Rightarrow> row \<Rightarrow> error + row" where
  "decode_row conversion_map row = decode_cells conversion_map 0 row"

fun decode_rows :: "(string \<rightharpoonup> string list) \<Rightarrow> table \<Rightarrow> error + table" where
  "decode_rows conversion_map [] = Inr []"
| "decode_rows conversion_map (row # table) =
     (case decode_row conversion_map row of
        Inl e \<Rightarrow> Inl e
      | Inr row' \<Rightarrow> (case decode_rows conversion_map table of
                      Inl e \<Rightarrow> Inl e
                    | Inr table' \<Rightarrow> Inr (row' # table')))"

section \<open>Notions used to state the properties\<close>

text \<open>The cells of column \<open>i\<close> in the order of the scan; a row shorter than \<open>i + 1\<close> has none.\<close>

definition column_cells :: "table \<Rightarrow> nat \<Rightarrow> string list" where
  "column_cells T i = [row ! i. row \<leftarrow> T, i < length row]"

text \<open>The cells of column \<open>i\<close> that pass the length test of the builder.\<close>

definition counted_cells :: "table \<Rightarrow> nat \<Rightarrow> string list" where
  "counted_cells T i = filter (\<lambda>v. 2 < length v) (column_cells T i)"

text \<open>The distinct values of a list in the order of their first occurrence.\<close>

fun first_seen :: "'a list \<Rightarrow> 'a list" where
  "first_seen [] = []"
| "first_seen (x # xs) = x # removeAll x (first_seen xs)"

text \<open>The update of one column's dictionary for one counted value.\<close>

definition count_value :: "string \<Rightarrow> (string \<times> nat) list \<Rightarrow> (string \<times> nat) list" where
  "count_value v column =
     (case map_of column v of
        Some n \<Rightarrow> dict_set column v (n + 1)
      | None \<Rightarrow> dict_set column v 1)"

text \<open>The number that a text of decimal digits denotes.\<close>

definition decimal_value :: "string \<Rightarrow> nat" where
  "decimal_value digits = foldl (\<lambda>n c. 10 * n + (of_char c - 48)) 0 digits"

text \<open>
  The list that the second loop of \<open>get_conversion_map\<close> computes from the counts of
  column \<open>i\<close>.
\<close>

definition ranking :: "table \<Rightarrow> nat \<Rightarrow> string list" where
  "ranking T i = sorted_column (fold count_value (counted_cells T i) [])"

section \<open>The compressed file as text\<close>

text \<open>
  The scripts read and write their files through \<open>json\<close>, \<open>csv\<close> and the text layer of
  \<open>open(..., newline='')\<close>. This section models those library calls on the characters
  of the file, as far as the two scripts use them.
\<close>

definition LF :: char where "LF = CHR 0x0A"
definition CR :: char where "CR = CHR 0x0D"
definition QUOTE :: char where "QUOTE = CHR 0x22"
definition BACKSLASH :: char where "BACKSLASH = CHR 0x5C"

text \<open>\<open>sep.join(xs)\<close>.\<close>

fun join :: "string \<Rightarrow> string list \<Rightarrow> string" where
  "join sep [] = []"
| "join sep [x] = x"
| "join sep (x # y # zs) = x @ sep @ join sep (y # zs)"

subsection \<open>\<open>json.dump\<close> of a conversion map\<close>

definition hex_digit :: "nat \<Rightarrow> char" where
  "hex_digit d = ''0123456789abcdef'' ! d"

text \<open>
  With the default \<open>ensure_ascii=True\<close> every character outside \<open>' '\<close> .. \<open>'~'\<close>, the
  quote and the backslash are written as escapes.
\<close>

definition json_escape :: "char \<Rightarrow> string" where
  "json_escape c =
     (if c = QUOTE then [BACKSLASH, QUOTE]
      else if c = BACKSLASH then [BACKSLASH, BACKSLASH]
      else if c = LF then [BACKSLASH, CHR ''n'']
      else if c = CR then [BACKSLASH, CHR ''r'']
      else if c = CHR 0x09 then [BACKSLASH, CHR ''t'']
      else if c = CHR 0x08 then [BACKSLASH, CHR ''b'']
      else if c = CHR 0x0C then [BACKSLASH, CHR ''f'']
      else if of_char c < (32 :: nat) \<or> (126 :: nat) < of_char c then
        [BACKSLASH, CHR ''u'', CHR ''0'', CHR ''0'',
         hex_digit (of_char c div 16), hex_digit (of_char c mod 16)]
      else [c])"

definition json_string :: "string \<Rightarrow> string" where
  "json_string s = QUOTE # concat (map json_escape s) @ [QUOTE]"

definition json_list :: "string list \<Rightarrow> string" where
  "json_list xs = ''['' @ join '', '' (map json_string xs) @ '']''"

text \<open>
  \<open>json.dump(conversion_map, fp)\<close>: the items in the order of the dictionary, an integer
  key written as the string of its decimal text. No line end is written.
\<close>

definition json_dump :: "(nat \<times> string list) list \<Rightarrow> string" where
  "json_dump conversion_map =
     ''{'' @ join '', '' (map (\<lambda>(index, column). QUOTE # str index @ [QUOTE] @ '': '' @ json_list column)
                          conversion_map) @ ''}''"

subsection \<open>\<open>csv.writer\<close>\<close>

text \<open>
  The default dialect: fields separated by commas, a field quoted when it holds a
  comma, a quote, a carriage return or a line feed, quotes doubled inside quotes, the
  row ended by \<open>\r\n\<close>. A row that consists of one empty field is written as \<open>""\<close>.
\<close>

definition csv_needs_quotes :: "string \<Rightarrow> bool" where
  "csv_needs_quotes field = list_ex (\<lambda>c. c = CHR '','' \<or> c = QUOTE \<or> c = CR \<or> c = LF) field"

definition csv_quoted :: "string \<Rightarrow> string" where
  "csv_quoted field = QUOTE # concat (map (\<lambda>c. if c = QUOTE then [c, c] else [c]) field) @ [QUOTE]"

definition csv_field :: "bool \<Rightarrow> string \<Rightarrow> string" where
  "csv_field alone field =
     (if csv_needs_quotes field \<or> (alone \<and> field = []) then csv_quoted field else field)"

definition writerow :: "row \<Rightarrow> string" where
  "writerow row = join '','' (map (csv_field (length row = 1)) row) @ [CR, LF]"

subsection \<open>\<open>compress_csv_and_save\<close>\<close>

text \<open>
  The input is the table that \<open>csv.reader\<close> yields for the input file, the result the
  text of the output file: the dumped map, then \<open>csv_writer.writerow('')\<close>, a row without
  fields, then the transformed rows.
\<close>

definition compress_csv_and_save :: "table \<Rightarrow> error + string" where
  "compress_csv_and_save input_file =
     (let conversion_map = get_conversion_map input_file
      in case encode_rows conversion_map input_file of
           Inl e \<Rightarrow> Inl e
         | Inr rows \<Rightarrow> Inr (json_dump conversion_map @ writerow [] @ concat (map writerow rows)))"

subsection \<open>Lines of a text file\<close>

text \<open>
  With \<open>newline=''\<close> a line ends after \<open>\n\<close>, after \<open>\r\n\<close> or after a \<open>\r\<close> that no
  \<open>\n\<close> follows, and the line end is part of the line. \<open>readline\<close> returns the first line
  and the rest of the text.
\<close>

fun readline :: "string \<Rightarrow> string \<times> string" where
  "readline [] = ([], [])"
| "readline (c # cs) =
     (if c = LF then ([c], cs)
      else if c = CR then
        (case cs of
           [] \<Rightarrow> ([c], [])
         | d # ds \<Rightarrow> if d = LF then ([c, d], ds) else ([c], cs))
      else (case readline cs of (line, rest) \<Rightarrow> (c # line, rest)))"

text \<open>Iterating over the file yields its lines; \<open>cur\<close> is the line read so far.\<close>

fun file_lines :: "string \<Rightarrow> string \<Rightarrow> string list" where
  "file_lines cur [] = (if cur = [] then [] else [cur])"
| "file_lines cur (c # cs) =
     (if c = LF then (cur @ [c]) # file_lines [] cs
      else if c = CR then
        (case cs of
           [] \<Rightarrow> [cur @ [c]]
         | d # ds \<Rightarrow> if d = LF then (cur @ [c, d]) # file_lines [] ds
                     else (cur @ [c]) # file_lines [] cs)
      else file_lines (cur @ [c]) cs)"

subsection \<open>\<open>csv.reader\<close>\<close>

text \<open>
  The reader is the state machine of the \<open>csv\<close> module for the default dialect. Its
  state holds the characters of the current field and the fields of the current
  record. The field size limit of the module is not modelled, and a NUL character is
  read like any other character, as Python does from version 3.11 on.
\<close>

datatype parser_state =
  START_RECORD | START_FIELD | IN_FIELD | IN_QUOTED_FIELD | QUOTE_IN_QUOTED_FIELD | EAT_CRNL

type_synonym parser = "parser_state \<times> string \<times> row"

text \<open>
  One step of the machine; \<open>None\<close> is the end-of-line mark that the reader feeds after
  the last character of each line. \<open>start_field\<close> is the case \<open>START_FIELD\<close>, which
  \<open>START_RECORD\<close> falls through to on an ordinary character.
\<close>

definition start_field :: "string \<Rightarrow> row \<Rightarrow> char option \<Rightarrow> error + parser" where
  "start_field field fields mark =
     (case mark of
        None \<Rightarrow> Inr (START_RECORD, [], fields @ [field])
      | Some c \<Rightarrow>
          if c = LF \<or> c = CR then Inr (EAT_CRNL, [], fields @ [field])
          else if c = QUOTE then Inr (IN_QUOTED_FIELD, field, fields)
          else if c = CHR '','' then Inr (START_FIELD, [], fields @ [field])
          else Inr (IN_FIELD, field @ [c], fields))"

fun parse_process_char :: "parser \<Rightarrow> char option \<Rightarrow> error + parser" where
  "parse_process_char (START_RECORD, field, fields) None = Inr (START_RECORD, field, fields)"
| "parse_process_char (START_RECORD, field, fields) (Some c) =
     (if c = LF \<or> c = CR then Inr (EAT_CRNL, field, fields)
      else start_field field fields (Some c))"
| "parse_process_char (START_FIELD, field, fields) mark = start_field field fields mark"
| "parse_process_char (IN_FIELD, field, fields) None = Inr (START_RECORD, [], fields @ [field])"
| "parse_process_char (IN_FIELD, field, fields) (Some c) =
     (if c = LF \<or> c = CR then Inr (EAT_CRNL, [], fields @ [field])
      else if c = CHR '','' then Inr (START_FIELD, [], fields @ [field])
      else Inr (IN_FIELD, field @ [c], fields))"
| "parse_process_char (IN_QUOTED_FIELD, field, fields) None = Inr (IN_QUOTED_FIELD, field, fields)"
| "parse_process_char (IN_QUOTED_FIELD, field, fields) (Some c) =
     (if c = QUOTE then Inr (QUOTE_IN_QUOTED_FIELD, field, fields)
      else Inr (IN_QUOTED_FIELD, field @ [c], fields))"
| "parse_process_char (QUOTE_IN_QUOTED_FIELD, field, fields) None =
     Inr (START_RECORD, [], fields @ [field])"
| "parse_process_char (QUOTE_IN_QUOTED_FIELD, field, fields) (Some c) =
     (if c = QUOTE then Inr (IN_QUOTED_FIELD, field @ [c], fields)
      else if c = CHR '','' then Inr (START_FIELD, [], fields @ [field])
      else if c = LF \<or> c = CR then Inr (EAT_CRNL, [], fields @ [field])
      else Inr (IN_FIELD, field @ [c], fields))"
| "parse_process_char (EAT_CRNL, field, fields) None = Inr (START_RECORD, field, fields)"
| "parse_process_char (EAT_CRNL, field, fields) (Some c) =
     (if c = LF \<or> c = CR then Inr (EAT_CRNL, field, fields) else Inl CsvError)"

text \<open>The characters of one line, then the end-of-line mark.\<close>

fun parse_line :: "parser \<Rightarrow> string \<Rightarrow> error + parser" where
  "parse_line p [] = parse_process_char p None"
| "parse_line p (c # cs) =
     (case parse_process_char p (Some c) of
        Inl e \<Rightarrow> Inl e
      | Inr p' \<Rightarrow> parse_line p' cs)"

text \<open>
  A record takes lines until the machine is back in \<open>START_RECORD\<close>; the machine is
  reset before each record. When the lines end inside a record, what was read of it is
  returned as the last record.
\<close>

fun csv_records :: "parser \<Rightarrow> string list \<Rightarrow> error + table" where
  "csv_records (state, field, fields) [] =
     (if field \<noteq> [] \<or> state = IN_QUOTED_FIELD then Inr [fields @ [field]] else Inr [])"
| "csv_records p (line # lines) =
     (case parse_line p line of
        Inl e \<Rightarrow> Inl e
      | Inr (state, field, fields) \<Rightarrow>
          if state = START_RECORD then
            (case csv_records (START_RECORD, [], []) lines of
               Inl e \<Rightarrow> Inl e
             | Inr rows \<Rightarrow> Inr (fields # rows))
          else csv_records (state, field, fields) lines)"

definition csv_reader :: "string \<Rightarrow> error + table" where
  "csv_reader text = csv_records (START_RECORD, [], []) (file_lines [] text)"

subsection \<open>\<open>json.loads\<close> of a dumped conversion map\<close>

text \<open>
  The parser covers the documents that \<open>json.dump\<close> writes for a conversion map: an
  object whose values are arrays of strings over the first 256 code points. \<open>None\<close>
  stands for \<open>JSONDecodeError\<close> and for a document of another shape.
\<close>

definition json_ws :: "char \<Rightarrow> bool" where
  "json_ws c = (c = CHR '' '' \<or> c = CHR 0x09 \<or> c = LF \<or> c = CR)"

definition hex_value :: "char \<Rightarrow> nat option" where
  "hex_value c =
     (let n = of_char c :: nat
      in if 48 \<le> n \<and> n \<le> 57 then Some (n - 48)
         else if 97 \<le> n \<and> n \<le> 102 then Some (n - 87)
         else if 65 \<le> n \<and> n \<le> 70 then Some (n - 55)
         else None)"

definition json_unescape :: "char \<Rightarrow> char option" where
  "json_unescape e =
     (if e = QUOTE \<or> e = BACKSLASH \<or> e = CHR ''/'' then Some e
      else if e = CHR ''b'' then Some (CHR 0x08)
      else if e = CHR ''f'' then Some (CHR 0x0C)
      else if e = CHR ''n'' then Some LF
      else if e = CHR ''r'' then Some CR
      else if e = CHR ''t'' then Some (CHR 0x09)
      else None)"

text \<open>
  The characters of a string after its opening quote: the decoded string and the text
  after the closing quote. A control character inside a string is an error.
\<close>

fun scan_string :: "string \<Rightarrow> (string \<times> string) option" where
  "scan_string [] = None"
| "scan_string (c # cs) =
     (if c = QUOTE then Some ([], cs)
      else if c = BACKSLASH then
        (case cs of
           [] \<Rightarrow> None
         | e # r \<Rightarrow>
             if e = CHR ''u'' then
               (case r of
                  h1 # h2 # h3 # h4 # r' \<Rightarrow>
                    (case (hex_value h1, hex_value h2, hex_value h3, hex_value h4) of
                       (Some a, Some b, Some x, Some y) \<Rightarrow>
                         if a = 0 \<and> b = 0 then
                           map_option (\<lambda>(s, t). (char_of (16 * x + y) # s, t)) (scan_string r')
                         else None
                     | _ \<Rightarrow> None)
                | _ \<Rightarrow> None)
             else (case json_unescape e of
                     None \<Rightarrow> None
                   | Some x \<Rightarrow> map_option (\<lambda>(s, t). (x # s, t)) (scan_string r)))
      else if of_char c < (32 :: nat) then None
      else map_option (\<lambda>(s, t). (c # s, t)) (scan_string cs))"

text \<open>
  The items of an array, from the opening quote of an item on: the items and the text
  after the closing bracket.
\<close>

function scan_items :: "string \<Rightarrow> (string list \<times> string) option" where
  "scan_items s =
     (case s of
        [] \<Rightarrow> None
      | c # cs \<Rightarrow>
          if c = QUOTE then
            (case scan_string cs of
               None \<Rightarrow> None
             | Some (v, r) \<Rightarrow>
                 (case dropWhile json_ws r of
                    [] \<Rightarrow> None
                  | d # r' \<Rightarrow>
                      if d = CHR '']'' then Some ([v], r')
                      else if d = CHR '','' then
                        map_option (\<lambda>(vs, t). (v # vs, t)) (scan_items (dropWhile json_ws r'))
                      else None))
          else None)"
  by pat_completeness auto
termination
proof (relation "measure length")
  show "wf (measure length)"
    by simp
next
  fix s :: string and c cs x v r d r'
  assume s: "s = c # cs" and "c = QUOTE"
    and x: "scan_string cs = Some x" "(v, r) = x"
    and d: "dropWhile json_ws r = d # r'" and "d \<noteq> CHR '']''" "d = CHR '',''"
  have shorter: "length t \<le> length u" if "scan_string u = Some (w, t)" for u w t
    using that
  proof (induction u arbitrary: w t rule: scan_string.induct)
    case 1
    then show ?case by simp
  next
    case (2 c cs)
    then show ?case
      by (fastforce split: if_splits list.splits option.splits prod.splits)
  qed
  have "length r \<le> length cs"
    using x shorter [of cs v r] by simp
  moreover have "length (d # r') \<le> length r"
    using length_dropWhile_le [of json_ws r] unfolding d .
  moreover have "length (dropWhile json_ws r') \<le> length r'"
    by (rule length_dropWhile_le)
  ultimately show "(dropWhile json_ws r', s) \<in> measure length"
    using s by simp
qed

declare scan_items.simps [simp del]

text \<open>The value of a key: an array of strings, from its opening bracket on.\<close>

definition scan_array :: "string \<Rightarrow> (string list \<times> string) option" where
  "scan_array s =
     (case s of
        [] \<Rightarrow> None
      | c # cs \<Rightarrow>
          if c = CHR ''['' then
            (case dropWhile json_ws cs of
               [] \<Rightarrow> None
             | d # r \<Rightarrow> if d = CHR '']'' then Some ([], r) else scan_items (d # r))
          else None)"

text \<open>
  The members of an object, from the opening quote of a key on: the members and the
  text after the closing brace.
\<close>

function scan_members :: "string \<Rightarrow> ((string \<times> string list) list \<times> string) option" where
  "scan_members s =
     (case s of
        [] \<Rightarrow> None
      | c # cs \<Rightarrow>
          if c = QUOTE then
            (case scan_string cs of
               None \<Rightarrow> None
             | Some (key, r) \<Rightarrow>
                 (case dropWhile json_ws r of
                    [] \<Rightarrow> None
                  | d # r1 \<Rightarrow>
                      if d = CHR '':'' then
                        (case scan_array (dropWhile json_ws r1) of
                           None \<Rightarrow> None
                         | Some (val, r2) \<Rightarrow>
                             (case dropWhile json_ws r2 of
                                [] \<Rightarrow> None
                              | e # r3 \<Rightarrow>
                                  if e = CHR ''}'' then Some ([(key, val)], r3)
                                  else if e = CHR '','' then
                                    map_option (\<lambda>(ms, t). ((key, val) # ms, t))
                                      (scan_members (dropWhile json_ws r3))
                                  else None))
                      else None))
          else None)"
  by pat_completeness auto
termination
proof (relation "measure length")
  show "wf (measure length)"
    by simp
next
  fix s :: string and c cs x key r d r1 y val r2 e r3
  assume s: "s = c # cs" and "c = QUOTE"
    and x: "scan_string cs = Some x" "(key, r) = x"
    and d: "dropWhile json_ws r = d # r1" and "d = CHR '':''"
    and y: "scan_array (dropWhile json_ws r1) = Some y" "(val, r2) = y"
    and e: "dropWhile json_ws r2 = e # r3" and "e \<noteq> CHR ''}''" "e = CHR '',''"
  have string: "length t \<le> length u" if "scan_string u = Some (w, t)" for u w t
    using that
  proof (induction u arbitrary: w t rule: scan_string.induct)
    case 1
    then show ?case by simp
  next
    case (2 c cs)
    then show ?case
      by (fastforce split: if_splits list.splits option.splits prod.splits)
  qed
  have items: "length t \<le> length u" if "scan_items u = Some (ws, t)" for u ws t
    using that
  proof (induction u arbitrary: ws t rule: scan_items.induct)
    case (1 u)
    from "1.prems" obtain cs v r d r' where u: "u = QUOTE # cs"
      and v: "scan_string cs = Some (v, r)" and dr: "dropWhile json_ws r = d # r'"
      by (subst (asm) scan_items.simps) (auto split: list.splits if_splits option.splits)
    have r: "length r \<le> length cs"
      using string [OF v] .
    have r': "length (d # r') \<le> length r"
      using length_dropWhile_le [of json_ws r] unfolding dr .
    show ?case
    proof (cases "d = CHR '']''")
      case True
      with "1.prems" u v dr have "t = r'"
        by (subst (asm) scan_items.simps) auto
      with r r' u show ?thesis by simp
    next
      case False
      with "1.prems" u v dr obtain ws' where d: "d = CHR '',''"
        and rec: "scan_items (dropWhile json_ws r') = Some (ws', t)"
        by (subst (asm) scan_items.simps) (auto split: if_splits)
      have "length t \<le> length (dropWhile json_ws r')"
        using "1.IH" [OF u refl v refl dr False d rec] .
      also have "\<dots> \<le> length r'"
        by (rule length_dropWhile_le)
      finally show ?thesis
        using r r' u by simp
    qed
  qed
  have array: "length t \<le> length u" if "scan_array u = Some (ws, t)" for u ws t
  proof -
    from that obtain cs d r where u: "u = CHR ''['' # cs" and dr: "dropWhile json_ws cs = d # r"
      by (auto simp: scan_array_def split: list.splits if_splits)
    have le: "length (d # r) \<le> length cs"
      using length_dropWhile_le [of json_ws cs] unfolding dr .
    show ?thesis
    proof (cases "d = CHR '']''")
      case True
      with that u dr have "t = r"
        by (simp add: scan_array_def)
      with le u show ?thesis by simp
    next
      case False
      with that u dr have "scan_items (d # r) = Some (ws, t)"
        by (simp add: scan_array_def)
      from items [OF this] le u show ?thesis by simp
    qed
  qed
  have "length r \<le> length cs"
    using x string [of cs key r] by simp
  moreover have "length (d # r1) \<le> length r"
    using length_dropWhile_le [of json_ws r] unfolding d .
  moreover have "length r2 \<le> length (dropWhile json_ws r1)"
    using y array [of "dropWhile json_ws r1" val r2] by simp
  moreover have "length (dropWhile json_ws r1) \<le> length r1"
    by (rule length_dropWhile_le)
  moreover have "length (e # r3) \<le> length r2"
    using length_dropWhile_le [of json_ws r2] unfolding e .
  moreover have "length (dropWhile json_ws r3) \<le> length r3"
    by (rule length_dropWhile_le)
  ultimately show "(dropWhile json_ws r3, s) \<in> measure length"
    using s by simp
qed

declare scan_members.simps [simp del]

text \<open>
  \<open>json.loads(s)\<close>: white space, the object, white space, the end of the text. Of two
  members with the same key the later one stays.
\<close>

definition json_loads :: "string \<Rightarrow> (string \<rightharpoonup> string list) option" where
  "json_loads s =
     (case dropWhile json_ws s of
        [] \<Rightarrow> None
      | c # cs \<Rightarrow>
          if c = CHR ''{'' then
            (case dropWhile json_ws cs of
               [] \<Rightarrow> None
             | d # r \<Rightarrow>
                 (case (if d = CHR ''}'' then Some ([], r) else scan_members (d # r)) of
                    None \<Rightarrow> None
                  | Some (members, rest) \<Rightarrow>
                      if dropWhile json_ws rest = [] then Some (map_of (rev members)) else None))
          else None)"

subsection \<open>\<open>decompress_file_and_save\<close>\<close>

text \<open>
  The input is the text of the compressed file, the result the rows handed to
  \<open>csv_writer.writerow\<close>, in order: \<open>readline\<close> takes the first line, \<open>json.loads\<close> reads the
  conversion map from it, and \<open>csv.reader\<close> reads the rows from the rest of the text.
\<close>

definition decompress_file_and_save :: "string \<Rightarrow> error + table" where
  "decompress_file_and_save compressed_file =
     (case readline compressed_file of
        (line, rest) \<Rightarrow>
          (case json_loads line of
             None \<Rightarrow> Inl JSONDecodeError
           | Some conversion_map \<Rightarrow>
               (case csv_reader rest of
                  Inl e \<Rightarrow> Inl e
                | Inr table \<Rightarrow> decode_rows conversion_map table)))"

subsection \<open>The reader on characters and end-of-line marks\<close>

text \<open>
  An equivalent form of the reader, used to reason about it: the text is turned into
  the sequence of characters and end-of-line marks that the lines of the file feed to
  the machine, and the machine runs on that sequence. \<open>line_pos\<close> tells whether the
  current line is still empty, has characters, or has just read a \<open>\r\<close> and must see the
  next character to know whether the line has ended.
\<close>

datatype line_pos = AT_START | IN_LINE | AFTER_CR

fun marks :: "line_pos \<Rightarrow> string \<Rightarrow> char option list" where
  "marks pos [] = (if pos = AT_START then [] else [None])"
| "marks pos (c # cs) =
     (if pos = AFTER_CR \<and> c \<noteq> LF then [None] else []) @
     Some c # (if c = LF then None # marks AT_START cs
               else marks (if c = CR then AFTER_CR else IN_LINE) cs)"

fun run :: "parser \<Rightarrow> char option list \<Rightarrow> error + table" where
  "run p [] = csv_records p []"
| "run p (m # ms) =
     (case parse_process_char p m of
        Inl e \<Rightarrow> Inl e
      | Inr (state, field, fields) \<Rightarrow>
          if m = None \<and> state = START_RECORD then
            (case run (START_RECORD, [], []) ms of
               Inl e \<Rightarrow> Inl e
             | Inr rows \<Rightarrow> Inr (fields # rows))
          else run (state, field, fields) ms)"

subsection \<open>Decimal text\<close>

lemma digit_char_cases:
  "d < 10 \<Longrightarrow> d = 0 \<or> d = 1 \<or> d = 2 \<or> d = 3 \<or> d = 4 \<or> d = 5 \<or> d = 6 \<or> d = 7 \<or> d = 8 \<or> d = (9::nat)"
  by arith

lemma digit_char_props:
  assumes "d < 10"
  shows "py_isdigit (digit_char d)" "digit_value (digit_char d) = d"
    "\<not> py_isspace (digit_char d)" "digit_char d \<noteq> CHR ''_''"
    "digit_char d \<noteq> CHR ''-''" "digit_char d \<noteq> CHR ''+''" "digit_char d \<noteq> CHR ''&''"
  using digit_char_cases [OF assms]
  by (auto simp: digit_char_def py_isdigit_def digit_value_def py_isspace_def)

lemma str_unfold:
  "n < 10 \<Longrightarrow> str n = [digit_char n]"
  "\<not> n < 10 \<Longrightarrow> str n = str (n div 10) @ [digit_char (n mod 10)]"
  by (subst str.simps, simp)+

lemma str_not_Nil: "str n \<noteq> []"
  by (cases "n < 10") (simp_all add: str_unfold)

lemma digits_ok_snoc:
  "digits_ok s \<Longrightarrow> py_isdigit c \<Longrightarrow> digits_ok (s @ [c])"
proof (induction s rule: digits_ok.induct)
  case 1
  then show ?case by simp
next
  case (2 a)
  then have "c \<noteq> CHR ''_''" by (auto simp: py_isdigit_def)
  with 2 show ?case by simp
next
  case (3 a b cs)
  show ?case
  proof (cases "b = CHR ''_''")
    case True
    with 3 show ?thesis by (cases cs) auto
  next
    case False
    with 3 show ?thesis by simp
  qed
qed

lemma digits_value_snoc:
  "c \<noteq> CHR ''_'' \<Longrightarrow> digits_value (s @ [c]) = 10 * digits_value s + digit_value c"
  by (simp add: digits_value_def)

lemma str_digits:
  "digits_ok (str n) \<and> digits_value (str n) = n \<and>
   \<not> py_isspace (hd (str n)) \<and> \<not> py_isspace (last (str n)) \<and>
   hd (str n) \<noteq> CHR ''-'' \<and> hd (str n) \<noteq> CHR ''+''"
proof (induction n rule: str.induct)
  case (1 n)
  show ?case
  proof (cases "n < 10")
    case True
    then show ?thesis
      by (simp add: str_unfold digit_char_props digits_value_def)
  next
    case False
    have d: "n mod 10 < 10" by simp
    note IH = "1.IH" [OF False]
    show ?thesis
      using IH str_not_Nil [of "n div 10"]
      by (simp add: str_unfold(2) [OF False] digits_ok_snoc digits_value_snoc
          digit_char_props [OF d])
  qed
qed

lemma py_int_str: "py_int (str n) = Some (int n)"
proof -
  obtain c r where cr: "str n = c # r"
    using str_not_Nil [of n] by (cases "str n") auto
  have c: "\<not> py_isspace c" "c \<noteq> CHR ''-''" "c \<noteq> CHR ''+''"
    using str_digits [of n] cr by simp_all
  have l: "\<not> py_isspace (last (c # r))"
    using str_digits [of n] cr by simp
  have "rev (c # r) \<noteq> []" by simp
  then obtain c' r' where rr: "rev (c # r) = c' # r'"
    by (cases "rev (c # r)") auto
  then have "c' = last (c # r)"
    by (metis last_rev list.sel(1) rev_rev_ident hd_rev)
  with l have c': "\<not> py_isspace c'" by simp
  have strip: "rev (dropWhile py_isspace (rev (dropWhile py_isspace (str n)))) = str n"
    using c c' rr cr by (metis dropWhile.simps(2) rev_rev_ident)
  show ?thesis
    unfolding py_int_def strip using c str_digits [of n]
    by (simp add: cr)
qed

lemma str_inj: "str a = str b \<Longrightarrow> a = b"
  by (metis str_digits)

lemma inj_str: "inj str"
  by (rule injI) (rule str_inj)

lemma marker_str: "startswith_marker (CHR ''&'' # s)"
  by (simp add: startswith_marker_def)

section \<open>The row loops, cell by cell\<close>

lemma decode_cells_Inr_iff:
  "decode_cells m i row = Inr row' \<longleftrightarrow>
     length row' = length row \<and>
     (\<forall>k < length row. if k < i then row' ! k = row ! k
                        else decode_cell m k (row ! k) = Inr (row' ! k))"
proof (induction m i row rule: decode_cells.induct)
  case (1 m i row)
  show ?case
  proof (cases "i < length row")
    case False
    then have eq: "decode_cells m i row = Inr row"
      by (subst decode_cells.simps) simp
    have lt: "\<And>k. k < length row \<Longrightarrow> k < i"
      using False by simp
    have "row = row' \<longleftrightarrow> length row' = length row \<and> (\<forall>k < length row. row' ! k = row ! k)"
      by (metis nth_equalityI)
    also have "(\<forall>k < length row. row' ! k = row ! k) \<longleftrightarrow> (\<forall>k < length row. if k < i then row' ! k = row ! k
                        else decode_cell m k (row ! k) = Inr (row' ! k))"
      using lt by simp
    finally have "Inr row = (Inr row' :: error + row) \<longleftrightarrow> length row' = length row \<and> (\<forall>k < length row. if k < i then row' ! k = row ! k
                        else decode_cell m k (row ! k) = Inr (row' ! k))"
      by (simp only: sum.inject)
    then show ?thesis
      unfolding eq .
  next
    case True
    show ?thesis
    proof (cases "decode_cell m i (row ! i)")
      case (Inl e)
      have eq: "decode_cells m i row = Inl e"
        using True Inl by (subst decode_cells.simps) simp
      have "\<not> (\<forall>k < length row. if k < i then row' ! k = row ! k
                        else decode_cell m k (row ! k) = Inr (row' ! k))"
      proof
        assume "(\<forall>k < length row. if k < i then row' ! k = row ! k
                        else decode_cell m k (row ! k) = Inr (row' ! k))"
        then have "decode_cell m i (row ! i) = Inr (row' ! i)"
          using True by (simp split: if_splits)
        with Inl show False by simp
      qed
      then show ?thesis
        unfolding eq by simp
    next
      case (Inr v)
      have step: "decode_cells m i row = decode_cells m (Suc i) (row[i := v])"
        using True Inr by (subst decode_cells.simps) simp
      have IH: "decode_cells m (Suc i) (row[i := v]) = Inr row' \<longleftrightarrow>
        length row' = length row \<and>
        (\<forall>k < length row. if k < Suc i then row' ! k = row[i := v] ! k
                        else decode_cell m k (row[i := v] ! k) = Inr (row' ! k))"
        using "1.IH" [OF True Inr] by simp
      have "(\<forall>k < length row. if k < Suc i then row' ! k = row[i := v] ! k
                        else decode_cell m k (row[i := v] ! k) = Inr (row' ! k)) \<longleftrightarrow>
            (\<forall>k < length row. if k < i then row' ! k = row ! k
                        else decode_cell m k (row ! k) = Inr (row' ! k))"
        (is "?L \<longleftrightarrow> ?R")
      proof
        assume L: ?L
        show ?R
        proof (intro allI impI)
          fix k assume k: "k < length row"
          from L k have Lk: "if k < Suc i then row' ! k = row[i := v] ! k
                        else decode_cell m k (row[i := v] ! k) = Inr (row' ! k)"
            by blast
          consider "k < i" | "k = i" | "i < k" by arith
          then show "if k < i then row' ! k = row ! k
                        else decode_cell m k (row ! k) = Inr (row' ! k)"
          proof cases
            case 1 with Lk show ?thesis by simp
          next
            case 2 with Lk k Inr show ?thesis by simp
          next
            case 3 with Lk show ?thesis by simp
          qed
        qed
      next
        assume R: ?R
        show ?L
        proof (intro allI impI)
          fix k assume k: "k < length row"
          from R k have Rk: "if k < i then row' ! k = row ! k
                        else decode_cell m k (row ! k) = Inr (row' ! k)"
            by blast
          consider "k < i" | "k = i" | "i < k" by arith
          then show "if k < Suc i then row' ! k = row[i := v] ! k
                        else decode_cell m k (row[i := v] ! k) = Inr (row' ! k)"
          proof cases
            case 1 with Rk show ?thesis by simp
          next
            case 2 with Rk k Inr show ?thesis by simp
          next
            case 3 with Rk show ?thesis by simp
          qed
        qed
      qed
      then show ?thesis
        unfolding step IH by simp
    qed
  qed
qed

lemma decode_cells_Inl_iff:
  "decode_cells m i row = Inl e \<longleftrightarrow>
     (\<exists>k. i \<le> k \<and> k < length row \<and> decode_cell m k (row ! k) = Inl e \<and>
          (\<forall>j. i \<le> j \<and> j < k \<longrightarrow> (\<exists>v. decode_cell m j (row ! j) = Inr v)))"
proof (induction m i row rule: decode_cells.induct)
  case (1 m i row)
  show ?case
  proof (cases "i < length row")
    case False
    then show ?thesis
      by (subst decode_cells.simps) auto
  next
    case True
    show ?thesis
    proof (cases "decode_cell m i (row ! i)")
      case (Inl e')
      have "decode_cells m i row = Inl e'"
        using True Inl by (subst decode_cells.simps) simp
      moreover have "(\<exists>k. i \<le> k \<and> k < length row \<and> decode_cell m k (row ! k) = Inl e \<and>
          (\<forall>j. i \<le> j \<and> j < k \<longrightarrow> (\<exists>v. decode_cell m j (row ! j) = Inr v))) \<longleftrightarrow> e' = e"
      proof
        assume "\<exists>k. i \<le> k \<and> k < length row \<and> decode_cell m k (row ! k) = Inl e \<and>
          (\<forall>j. i \<le> j \<and> j < k \<longrightarrow> (\<exists>v. decode_cell m j (row ! j) = Inr v))"
        then obtain k where k: "i \<le> k" "k < length row" "decode_cell m k (row ! k) = Inl e"
          "\<forall>j. i \<le> j \<and> j < k \<longrightarrow> (\<exists>v. decode_cell m j (row ! j) = Inr v)" by blast
        have "k = i"
        proof (rule ccontr)
          assume "k \<noteq> i"
          with k(1) have "i < k" by simp
          with k(4) Inl show False by auto
        qed
        with k(3) Inl show "e' = e" by simp
      next
        assume "e' = e"
        with True Inl show "\<exists>k. i \<le> k \<and> k < length row \<and> decode_cell m k (row ! k) = Inl e \<and>
          (\<forall>j. i \<le> j \<and> j < k \<longrightarrow> (\<exists>v. decode_cell m j (row ! j) = Inr v))"
          by (intro exI [of _ i]) auto
      qed
      ultimately show ?thesis by auto
    next
      case (Inr v)
      have step: "decode_cells m i row = decode_cells m (Suc i) (row[i := v])"
        using True Inr by (subst decode_cells.simps) simp
      note IH = "1.IH" [OF True Inr]
      have nth: "\<And>k. Suc i \<le> k \<Longrightarrow> row[i := v] ! k = row ! k" by simp
      show ?thesis
        unfolding step IH
      proof (intro iffI; elim exE conjE)
        fix k assume k: "Suc i \<le> k" "k < length (row[i := v])"
          "decode_cell m k (row[i := v] ! k) = Inl e"
          "\<forall>j. Suc i \<le> j \<and> j < k \<longrightarrow> (\<exists>v'. decode_cell m j (row[i := v] ! j) = Inr v')"
        have "\<forall>j. i \<le> j \<and> j < k \<longrightarrow> (\<exists>v'. decode_cell m j (row ! j) = Inr v')"
        proof (intro allI impI)
          fix j assume j: "i \<le> j \<and> j < k"
          show "\<exists>v'. decode_cell m j (row ! j) = Inr v'"
          proof (cases "j = i")
            case True with Inr show ?thesis by simp
          next
            case False
            with j have "Suc i \<le> j \<and> j < k" by simp
            with k(4) nth [of j] show ?thesis by auto
          qed
        qed
        with k(1,2,3) nth [of k]
        show "\<exists>k. i \<le> k \<and> k < length row \<and> decode_cell m k (row ! k) = Inl e \<and>
          (\<forall>j. i \<le> j \<and> j < k \<longrightarrow> (\<exists>v. decode_cell m j (row ! j) = Inr v))"
          by (intro exI [of _ k]) auto
      next
        fix k assume k: "i \<le> k" "k < length row" "decode_cell m k (row ! k) = Inl e"
          "\<forall>j. i \<le> j \<and> j < k \<longrightarrow> (\<exists>v. decode_cell m j (row ! j) = Inr v)"
        from k(3) Inr have "k \<noteq> i" by auto
        with k(1) have ki: "Suc i \<le> k" by simp
        have "\<forall>j. Suc i \<le> j \<and> j < k \<longrightarrow> (\<exists>v'. decode_cell m j (row[i := v] ! j) = Inr v')"
          using k(4) nth by auto
        with ki k(2,3) nth [of k]
        show "\<exists>k. Suc i \<le> k \<and> k < length (row[i := v]) \<and>
          decode_cell m k (row[i := v] ! k) = Inl e \<and>
          (\<forall>j. Suc i \<le> j \<and> j < k \<longrightarrow> (\<exists>va. decode_cell m j (row[i := v] ! j) = Inr va))"
          by (intro exI [of _ k]) auto
      qed
    qed
  qed
qed

lemma encode_cells_Inr_iff:
  "encode_cells cm i row = Inr row' \<longleftrightarrow>
     length row' = length row \<and>
     (\<forall>k < length row.
        if k < i \<or> length (row ! k) \<le> 2 then row' ! k = row ! k
        else \<exists>pos. list_index (default_get [] cm k) (row ! k) = Some pos \<and>
                   row' ! k = CHR ''&'' # str pos)"
proof (induction cm i row rule: encode_cells.induct)
  case (1 cm i row)
  show ?case
  proof (cases "i < length row")
    case False
    then have eq: "encode_cells cm i row = Inr row"
      by (subst encode_cells.simps) simp
    have lt: "\<And>k. k < length row \<Longrightarrow> k < i"
      using False by simp
    have "row = row' \<longleftrightarrow> length row' = length row \<and> (\<forall>k < length row. row' ! k = row ! k)"
      by (metis nth_equalityI)
    also have "(\<forall>k < length row. row' ! k = row ! k) \<longleftrightarrow>
      (\<forall>k < length row.
        if k < i \<or> length (row ! k) \<le> 2 then row' ! k = row ! k
        else \<exists>pos. list_index (default_get [] cm k) (row ! k) = Some pos \<and>
                   row' ! k = CHR ''&'' # str pos)"
      using lt by simp
    finally have "Inr row = (Inr row' :: error + row) \<longleftrightarrow> length row' = length row \<and>
      (\<forall>k < length row.
        if k < i \<or> length (row ! k) \<le> 2 then row' ! k = row ! k
        else \<exists>pos. list_index (default_get [] cm k) (row ! k) = Some pos \<and>
                   row' ! k = CHR ''&'' # str pos)"
      by (simp only: sum.inject)
    then show ?thesis
      unfolding eq .
  next
    case True
    define v where "v = row ! i"
    show ?thesis
    proof (cases "length v \<le> 2")
      case short: True
      have step: "encode_cells cm i row = encode_cells cm (Suc i) row"
        using True short by (subst encode_cells.simps) (simp add: v_def)
      have IH: "encode_cells cm (Suc i) row = Inr row' \<longleftrightarrow>
        length row' = length row \<and>
        (\<forall>k < length row.
          if k < Suc i \<or> length (row ! k) \<le> 2 then row' ! k = row ! k
          else \<exists>pos. list_index (default_get [] cm k) (row ! k) = Some pos \<and>
                   row' ! k = CHR ''&'' # str pos)"
        using "1.IH"(1) [OF True refl] short by (simp add: v_def)
      have "\<And>k. k < Suc i \<or> length (row ! k) \<le> 2 \<longleftrightarrow> k < i \<or> length (row ! k) \<le> 2"
        using short by (auto simp: v_def less_Suc_eq)
      then show ?thesis
        unfolding step IH by simp
    next
      case long: False
      show ?thesis
      proof (cases "list_index (default_get [] cm i) v")
        case None
        have eq: "encode_cells cm i row = Inl ValueError"
          using True long None by (subst encode_cells.simps) (simp add: v_def)
        have "\<not> (\<forall>k < length row.
          if k < i \<or> length (row ! k) \<le> 2 then row' ! k = row ! k
          else \<exists>pos. list_index (default_get [] cm k) (row ! k) = Some pos \<and>
                   row' ! k = CHR ''&'' # str pos)"
        proof
          assume "\<forall>k < length row.
            if k < i \<or> length (row ! k) \<le> 2 then row' ! k = row ! k
            else \<exists>pos. list_index (default_get [] cm k) (row ! k) = Some pos \<and>
                   row' ! k = CHR ''&'' # str pos"
          with True have "if i < i \<or> length (row ! i) \<le> 2 then row' ! i = row ! i
            else \<exists>pos. list_index (default_get [] cm i) (row ! i) = Some pos \<and>
                   row' ! i = CHR ''&'' # str pos"
            by blast
          with long None show False by (simp add: v_def)
        qed
        then show ?thesis
          unfolding eq by simp
      next
        case (Some pos)
        define sub where "sub = CHR ''&'' # str pos"
        have step: "encode_cells cm i row = encode_cells cm (Suc i) (row[i := sub])"
          using True long Some by (subst encode_cells.simps) (simp add: v_def sub_def)
        have IH: "encode_cells cm (Suc i) (row[i := sub]) = Inr row' \<longleftrightarrow>
          length row' = length row \<and>
          (\<forall>k < length row.
            if k < Suc i \<or> length (row[i := sub] ! k) \<le> 2 then row' ! k = row[i := sub] ! k
            else \<exists>pos. list_index (default_get [] cm k) (row[i := sub] ! k) = Some pos \<and>
                   row' ! k = CHR ''&'' # str pos)"
          using "1.IH"(2) [OF True refl long [unfolded v_def] Some [unfolded v_def]]
          by (simp add: sub_def)
        have "(\<forall>k < length row.
            if k < Suc i \<or> length (row[i := sub] ! k) \<le> 2 then row' ! k = row[i := sub] ! k
            else \<exists>pos. list_index (default_get [] cm k) (row[i := sub] ! k) = Some pos \<and>
                   row' ! k = CHR ''&'' # str pos) \<longleftrightarrow>
          (\<forall>k < length row.
            if k < i \<or> length (row ! k) \<le> 2 then row' ! k = row ! k
            else \<exists>pos. list_index (default_get [] cm k) (row ! k) = Some pos \<and>
                   row' ! k = CHR ''&'' # str pos)"
          (is "(\<forall>k < length row. ?L k) \<longleftrightarrow> (\<forall>k < length row. ?R k)")
        proof -
          have "?L k \<longleftrightarrow> ?R k" if k: "k < length row" for k
          proof -
            consider "k < i" | "k = i" | "i < k" by arith
            then show ?thesis
            proof cases
              case 1 then show ?thesis by simp
            next
              case 2 with k long Some show ?thesis by (simp add: v_def sub_def)
            next
              case 3 then show ?thesis by simp
            qed
          qed
          then show ?thesis by blast
        qed
        then show ?thesis
          unfolding step IH by simp
      qed
    qed
  qed
qed

subsection \<open>What one cell decodes to\<close>

lemma decode_cell_plain:
  "\<not> startswith_marker c \<Longrightarrow> decode_cell m i c = Inr c"
  by (simp add: decode_cell_def)

lemma decode_cell_Inr_iff:
  "decode_cell m i c = Inr v \<longleftrightarrow>
     (if startswith_marker c
      then \<exists>l pos. m (str i) = Some l \<and> py_int (drop 1 c) = Some pos \<and> py_getitem l pos = Inr v
      else v = c)"
  by (auto simp: decode_cell_def split: option.splits)

lemma decode_cell_errors:
  "decode_cell m i c = Inl e \<Longrightarrow> e \<in> {KeyError, ValueError, IndexError}"
  by (auto simp: decode_cell_def py_getitem_def Let_def split: if_splits option.splits)

lemma decode_row_not_Inr:
  assumes "i < length row" "decode_cell m i (row ! i) = Inl e"
  shows "\<exists>e'. decode_row m row = Inl e'"
proof (cases "decode_row m row")
  case (Inl e')
  then show ?thesis by blast
next
  case (Inr row')
  then have "decode_cell m i (row ! i) = Inr (row' ! i)"
    using assms(1) unfolding decode_row_def decode_cells_Inr_iff by simp
  with assms(2) show ?thesis by simp
qed

lemma decode_row_total:
  assumes "\<forall>j<length row. \<exists>v. decode_cell m j (row ! j) = Inr v"
  shows "\<exists>row'. decode_row m row = Inr row'"
proof (cases "decode_row m row")
  case (Inr row')
  then show ?thesis by blast
next
  case (Inl e)
  then obtain k where "k < length row" "decode_cell m k (row ! k) = Inl e"
    unfolding decode_row_def decode_cells_Inl_iff by blast
  with assms show ?thesis by force
qed

lemma py_getitem_nat: "p < length l \<Longrightarrow> py_getitem l (int p) = Inr (l ! p)"
  by (simp add: py_getitem_def)

lemma py_getitem_from_end:
  "1 \<le> k \<Longrightarrow> k \<le> length l \<Longrightarrow> py_getitem l (- int k) = Inr (l ! (length l - k))"
  by (simp add: py_getitem_def Let_def nat_diff_distrib' flip: of_nat_diff)

lemma py_getitem_out_of_range:
  "int (length l) \<le> pos \<or> pos < - int (length l) \<Longrightarrow> py_getitem l pos = Inl IndexError"
  by (auto simp: py_getitem_def Let_def)

lemma py_int_99: "py_int ''99'' = Some 99"
  by (simp add: py_int_def py_isspace_def py_isdigit_def digits_value_def digit_value_def)

section \<open>The builder\<close>

subsection \<open>Dictionaries\<close>

lemma map_of_dict_set: "map_of (dict_set d k v) = (map_of d)(k \<mapsto> v)"
  by (induction d k v rule: dict_set.induct) auto

lemma keys_dict_set:
  "map fst (dict_set d k v) = (if k \<in> fst ` set d then map fst d else map fst d @ [k])"
  by (induction d k v rule: dict_set.induct) (auto simp: image_iff)

lemma key_set_dict_set: "fst ` set (dict_set d k v) = insert k (fst ` set d)"
  by (induction d k v rule: dict_set.induct) auto

lemma distinct_dict_set:
  "distinct (map fst d) \<Longrightarrow> distinct (map fst (dict_set d k v))"
  by (simp add: keys_dict_set)

lemma default_get_dict_set:
  "default_get dflt (dict_set d k v) i = (if i = k then v else default_get dflt d i)"
  by (simp add: default_get_def map_of_dict_set)

lemma default_get_Nil [simp]: "default_get dflt [] i = dflt"
  by (simp add: default_get_def)

lemma dict_set_present:
  "distinct ks \<Longrightarrow> k \<in> set ks \<Longrightarrow>
   dict_set (map (\<lambda>w. (w, f w)) ks) k n = map (\<lambda>w. (w, if w = k then n else f w)) ks"
  by (induction ks) auto

lemma dict_set_absent:
  "k \<notin> set ks \<Longrightarrow> dict_set (map (\<lambda>w. (w, f w)) ks) k n = map (\<lambda>w. (w, f w)) ks @ [(k, n)]"
  by (induction ks) auto

lemma map_of_graph:
  "map_of (map (\<lambda>w. (w, f w)) ks) k = (if k \<in> set ks then Some (f k) else None)"
  by (induction ks) auto

subsection \<open>First occurrences\<close>

lemma set_first_seen [simp]: "set (first_seen xs) = set xs"
  by (induction xs) auto

lemma distinct_first_seen [simp]: "distinct (first_seen xs)"
  by (induction xs) (auto simp: distinct_removeAll)

lemma first_seen_snoc:
  "first_seen (xs @ [v]) = (if v \<in> set xs then first_seen xs else first_seen xs @ [v])"
  by (induction xs) auto

lemma first_seen_Nil_iff [simp]: "first_seen xs = [] \<longleftrightarrow> xs = []"
  by (cases xs) auto

subsection \<open>Counting one column\<close>

lemma count_list_snoc: "count_list (xs @ [v]) w = count_list xs w + (if w = v then 1 else 0)"
  by (induction xs) auto


lemma fold_count_value:
  "fold count_value vs [] = map (\<lambda>v. (v, count_list vs v)) (first_seen vs)"
proof (induction vs rule: rev_induct)
  case Nil
  show ?case by simp
next
  case (snoc v vs)
  let ?D = "map (\<lambda>w. (w, count_list vs w)) (first_seen vs)"
  have "fold count_value (vs @ [v]) [] = count_value v ?D"
    using snoc by simp
  also have "\<dots> = map (\<lambda>w. (w, count_list (vs @ [v]) w)) (first_seen (vs @ [v]))"
  proof (cases "v \<in> set vs")
    case True
    then have "count_value v ?D = dict_set ?D v (count_list vs v + 1)"
      by (simp add: count_value_def map_of_graph)
    also have "\<dots> = map (\<lambda>w. (w, if w = v then count_list vs v + 1 else count_list vs w))
        (first_seen vs)"
      using True by (intro dict_set_present) simp_all
    also have "\<dots> = map (\<lambda>w. (w, count_list (vs @ [v]) w)) (first_seen vs)"
      by (simp add: count_list_snoc)
    finally show ?thesis
      using True by (simp add: first_seen_snoc)
  next
    case False
    then have "count_value v ?D = dict_set ?D v 1"
      by (simp add: count_value_def map_of_graph)
    also have "\<dots> = ?D @ [(v, 1)]"
      using False by (intro dict_set_absent) simp
    also have "\<dots> = map (\<lambda>w. (w, count_list (vs @ [v]) w)) (first_seen vs @ [v])"
      using False by (auto simp: count_list_snoc count_list_0_iff)
    finally show ?thesis
      using False by (simp add: first_seen_snoc)
  qed
  finally show ?case .
qed

subsection \<open>The scan of the table\<close>

lemma count_cell_eq:
  "count_cell (k, v) c =
     (if length v \<le> 2 then c else dict_set c k (count_value v (default_get [] c k)))"
  by (simp add: count_cell_def count_value_def Let_def split: option.splits)

lemma count_cell_column:
  "default_get [] (count_cell (k, v) c) i =
     (if i = k \<and> 2 < length v then count_value v (default_get [] c i) else default_get [] c i)"
  by (auto simp: count_cell_eq default_get_dict_set)

lemma count_cell_keys:
  "fst ` set (count_cell (k, v) c) = (if 2 < length v then insert k (fst ` set c) else fst ` set c)"
  by (simp add: count_cell_eq key_set_dict_set)

lemma count_cell_distinct:
  "distinct (map fst c) \<Longrightarrow> distinct (map fst (count_cell (k, v) c))"
  by (simp add: count_cell_eq distinct_dict_set)

lemma fold_count_cell_column:
  "default_get [] (fold count_cell (enumerate n row) c) i =
     (if n \<le> i \<and> i < n + length row \<and> 2 < length (row ! (i - n))
      then count_value (row ! (i - n)) (default_get [] c i) else default_get [] c i)"
proof (induction row arbitrary: n c)
  case Nil
  show ?case by auto
next
  case (Cons x xs)
  let ?c = "count_cell (n, x) c"
  have step: "default_get [] (fold count_cell (enumerate n (x # xs)) c) i =
     (if Suc n \<le> i \<and> i < Suc n + length xs \<and> 2 < length (xs ! (i - Suc n))
      then count_value (xs ! (i - Suc n)) (default_get [] ?c i) else default_get [] ?c i)"
    by (simp add: Cons)
  consider "i < n" | "i = n" | "n < i" by arith
  then show ?case
  proof cases
    case 1
    then show ?thesis unfolding step by (simp add: count_cell_column)
  next
    case 2
    then show ?thesis unfolding step by (simp add: count_cell_column)
  next
    case 3
    then have "(x # xs) ! (i - n) = xs ! (i - Suc n)"
      by (simp add: nth_Cons')
    with 3 show ?thesis unfolding step by (auto simp: count_cell_column)
  qed
qed

lemma fold_count_cell_keys:
  "fst ` set (fold count_cell (enumerate n row) c) =
     fst ` set c \<union> {i. n \<le> i \<and> i < n + length row \<and> 2 < length (row ! (i - n))}"
proof (induction row arbitrary: n c)
  case Nil
  show ?case by auto
next
  case (Cons x xs)
  have "{i. Suc n \<le> i \<and> i < Suc n + length xs \<and> 2 < length (xs ! (i - Suc n))} =
        {i. n < i \<and> i < n + length (x # xs) \<and> 2 < length ((x # xs) ! (i - n))}"
    by (auto simp: nth_Cons')
  moreover have "{i. n \<le> i \<and> i < n + length (x # xs) \<and> 2 < length ((x # xs) ! (i - n))} =
      (if 2 < length x then {n} else {}) \<union>
      {i. n < i \<and> i < n + length (x # xs) \<and> 2 < length ((x # xs) ! (i - n))}"
    by (auto simp: nth_Cons' le_less)
  ultimately show ?case
    by (simp add: Cons count_cell_keys)
qed

lemma fold_count_cell_distinct:
  "distinct (map fst c) \<Longrightarrow> distinct (map fst (fold count_cell (enumerate n row) c))"
proof (induction row arbitrary: n c)
  case Nil
  then show ?case by simp
next
  case (Cons x xs)
  then show ?case by (simp add: count_cell_distinct)
qed

lemma count_row_column:
  "default_get [] (count_row row c) i =
     fold count_value (filter (\<lambda>v. 2 < length v) (if i < length row then [row ! i] else []))
       (default_get [] c i)"
  unfolding count_row_def fold_count_cell_column by simp

lemma count_row_keys:
  "fst ` set (count_row row c) = fst ` set c \<union> {i. i < length row \<and> 2 < length (row ! i)}"
  unfolding count_row_def fold_count_cell_keys by simp

lemma fold_count_row_column:
  "default_get [] (fold count_row T c) i =
     fold count_value (counted_cells T i) (default_get [] c i)"
proof (induction T arbitrary: c)
  case Nil
  show ?case by (simp add: counted_cells_def column_cells_def)
next
  case (Cons row T)
  have "counted_cells (row # T) i =
      filter (\<lambda>v. 2 < length v) (if i < length row then [row ! i] else []) @ counted_cells T i"
    by (simp add: counted_cells_def column_cells_def)
  then show ?case
    by (simp add: Cons count_row_column)
qed

lemma fold_count_row_keys:
  "fst ` set (fold count_row T c) = fst ` set c \<union> {i. counted_cells T i \<noteq> []}"
proof (induction T arbitrary: c)
  case Nil
  show ?case by (simp add: counted_cells_def column_cells_def)
next
  case (Cons row T)
  have "{i. counted_cells (row # T) i \<noteq> []} =
      {i. i < length row \<and> 2 < length (row ! i)} \<union> {i. counted_cells T i \<noteq> []}"
    by (auto simp: counted_cells_def column_cells_def)
  then show ?case
    by (simp add: Cons count_row_keys Un_assoc)
qed

lemma fold_count_row_distinct:
  "distinct (map fst c) \<Longrightarrow> distinct (map fst (fold count_row T c))"
proof (induction T arbitrary: c)
  case Nil
  then show ?case by simp
next
  case (Cons row T)
  then show ?case by (simp add: count_row_def fold_count_cell_distinct)
qed

subsection \<open>The ranking of one column\<close>

lemma mset_py_sorted_reverse [simp]: "mset (py_sorted_reverse key xs) = mset xs"
  by (simp add: py_sorted_reverse_def)

lemma set_py_sorted_reverse [simp]: "set (py_sorted_reverse key xs) = set xs"
  by (simp add: py_sorted_reverse_def)

lemma py_sorted_reverse_descending:
  "sorted_wrt (\<lambda>a b. key b \<le> key a) (py_sorted_reverse key xs)"
proof -
  have "sorted (map key (sort_key key (rev xs)))"
    by simp
  then have "sorted_wrt (\<lambda>a b. key a \<le> key b) (sort_key key (rev xs))"
    by (simp add: sorted_map)
  then show ?thesis
    by (simp add: py_sorted_reverse_def sorted_wrt_rev)
qed

lemma py_sorted_reverse_stable:
  "filter (\<lambda>x. key x = k) (py_sorted_reverse key xs) = filter (\<lambda>x. key x = k) xs"
proof -
  have "filter (\<lambda>x. key x = k) (sort_key key (rev xs)) = filter (\<lambda>x. key x = k) (rev xs)"
    by (rule sort_key_stable)
  then show ?thesis
    by (simp add: py_sorted_reverse_def rev_filter [symmetric])
qed

text \<open>The ranking of a dictionary that holds the counts \<open>cnt\<close> of the keys \<open>ks\<close>.\<close>

lemma sorted_graph:
  fixes cnt :: "string \<Rightarrow> nat"
  defines "S \<equiv> \<lambda>ks. py_sorted_reverse snd (map (\<lambda>v. (v, cnt v)) ks)"
  shows "S ks = map (\<lambda>v. (v, cnt v)) (map fst (S ks))"
proof -
  have "\<forall>x \<in> set (S ks). x = (fst x, cnt (fst x))"
    by (auto simp: S_def)
  then show ?thesis
    by (simp add: map_idI comp_def)
qed

lemma comprehension_filter:
  "concat (map (\<lambda>x. if P x then [f x] else []) xs) = map f (filter P xs)"
  by (induction xs) auto

lemma sorted_column_eq:
  "sorted_column column = map fst (filter (\<lambda>x. fst x \<noteq> '''') (py_sorted_reverse snd column))"
  unfolding sorted_column_def by (rule comprehension_filter)

lemma sorted_column_graph:
  assumes "'''' \<notin> set ks"
  shows "sorted_column (map (\<lambda>v. (v, cnt v)) ks) =
         map fst (py_sorted_reverse snd (map (\<lambda>v. (v, cnt v)) ks))"
proof -
  have "\<forall>x \<in> set (py_sorted_reverse snd (map (\<lambda>v. (v, cnt v)) ks)). fst x \<noteq> ''''"
    using assms by auto
  then show ?thesis
    unfolding sorted_column_eq by (simp add: filter_True)
qed

lemma ranking_props:
  fixes cnt :: "string \<Rightarrow> nat"
  assumes "'''' \<notin> set ks"
  defines "l \<equiv> sorted_column (map (\<lambda>v. (v, cnt v)) ks)"
  shows "mset l = mset ks"
    and "sorted_wrt (\<lambda>a b. cnt b \<le> cnt a) l"
    and "filter (\<lambda>v. cnt v = n) l = filter (\<lambda>v. cnt v = n) ks"
proof -
  let ?D = "map (\<lambda>v. (v, cnt v)) ks"
  let ?S = "py_sorted_reverse snd ?D"
  have l: "l = map fst ?S"
    unfolding l_def by (rule sorted_column_graph [OF assms(1)])
  have S: "?S = map (\<lambda>v. (v, cnt v)) l"
    unfolding l by (rule sorted_graph)
  have "mset l = image_mset fst (mset ?D)"
    unfolding l by (simp only: mset_map mset_py_sorted_reverse)
  also have "\<dots> = mset (map fst ?D)"
    by (simp only: mset_map)
  also have "map fst ?D = ks"
    by (simp add: comp_def)
  finally show "mset l = mset ks" .
  have "sorted_wrt (\<lambda>a b. snd b \<le> snd a) (map (\<lambda>v. (v, cnt v)) l)"
    using py_sorted_reverse_descending [of snd ?D] S by simp
  then show "sorted_wrt (\<lambda>a b. cnt b \<le> cnt a) l"
    by (simp add: sorted_wrt_map)
  have "filter (\<lambda>v. cnt v = n) l = map fst (filter (\<lambda>x. snd x = n) (map (\<lambda>v. (v, cnt v)) l))"
    by (simp add: filter_map comp_def)
  also have "\<dots> = map fst (filter (\<lambda>x. snd x = n) ?D)"
    using py_sorted_reverse_stable [of snd n ?D] S by simp
  also have "\<dots> = filter (\<lambda>v. cnt v = n) ks"
    by (simp add: filter_map comp_def)
  finally show "filter (\<lambda>v. cnt v = n) l = filter (\<lambda>v. cnt v = n) ks" .
qed

subsection \<open>The entries of the conversion map\<close>

lemma conversion_map_keys: "map fst (get_conversion_map T) = map fst (fold count_row T [])"
  by (simp add: get_conversion_map_def comp_def case_prod_unfold)

lemma conversion_map_distinct: "distinct (map fst (get_conversion_map T))"
  unfolding conversion_map_keys by (rule fold_count_row_distinct) simp

lemma map_of_conversion_map:
  "map_of (get_conversion_map T) i =
     (if counted_cells T i = [] then None else Some (ranking T i))"
proof -
  let ?c = "fold count_row T []"
  have m: "map_of (get_conversion_map T) i = map_option sorted_column (map_of ?c i)"
    by (simp add: get_conversion_map_def map_of_map)
  show ?thesis
  proof (cases "map_of ?c i")
    case None
    then have "i \<notin> fst ` set ?c"
      by (simp add: map_of_eq_None_iff)
    then have "counted_cells T i = []"
      by (simp add: fold_count_row_keys)
    with None m show ?thesis by simp
  next
    case (Some col)
    then have "i \<in> fst ` set ?c"
      by (metis map_of_eq_None_iff option.distinct(1))
    then have ne: "counted_cells T i \<noteq> []"
      by (simp add: fold_count_row_keys)
    have "col = default_get [] ?c i"
      using Some by (simp add: default_get_def)
    also have "\<dots> = fold count_value (counted_cells T i) []"
      by (simp add: fold_count_row_column)
    finally show ?thesis
      using ne m Some by (simp add: ranking_def)
  qed
qed

lemma conversion_map_entry:
  "(i, l) \<in> set (get_conversion_map T) \<longleftrightarrow> counted_cells T i \<noteq> [] \<and> l = ranking T i"
proof -
  have "(i, l) \<in> set (get_conversion_map T) \<longleftrightarrow> map_of (get_conversion_map T) i = Some l"
    using conversion_map_distinct [of T] by simp
  then show ?thesis
    unfolding map_of_conversion_map by auto
qed

lemma ranking_Nil: "counted_cells T i = [] \<Longrightarrow> ranking T i = []"
  by (simp add: ranking_def sorted_column_eq py_sorted_reverse_def)

lemma conversion_map_column: "default_get [] (get_conversion_map T) i = ranking T i"
  by (simp add: default_get_def map_of_conversion_map ranking_Nil)

lemma counted_cells_long: "v \<in> set (counted_cells T i) \<Longrightarrow> 2 < length v"
  by (simp add: counted_cells_def)


lemma ranking_mset: "mset (ranking T i) = mset (first_seen (counted_cells T i))"
proof -
  have "'''' \<notin> set (first_seen (counted_cells T i))"
    using counted_cells_long [of "''''" T i] by auto
  then show ?thesis
    unfolding ranking_def fold_count_value by (rule ranking_props(1))
qed

lemma set_ranking: "set (ranking T i) = set (counted_cells T i)"
  using ranking_mset [of T i] by (metis set_first_seen set_mset_mset)

lemma distinct_ranking: "distinct (ranking T i)"
  using ranking_mset [of T i] by (metis distinct_first_seen mset_eq_imp_distinct_iff)

subsection \<open>Three tables, built\<close>


lemma get_conversion_map_hello:
  "get_conversion_map [[''''], [''''], [''hello world''], [''hello world''], [''hi'']] =
   [(0, [''hello world''])]"
  by (simp add: get_conversion_map_def count_row_def count_cell_def default_get_def
      sorted_column_def py_sorted_reverse_def enumerate_eq_zip)

lemma get_conversion_map_plum:
  "get_conversion_map [[''pear'', ''x''], [''plum''], [''kiwi'', ''yes''], [''plum'']] =
   [(0, [''plum'', ''pear'', ''kiwi'']), (1, [''yes''])]"
  by (simp add: get_conversion_map_def count_row_def count_cell_def default_get_def
      sorted_column_def py_sorted_reverse_def enumerate_eq_zip)

section \<open>Encoding with the map of the same table\<close>

lemma list_index_Some:
  "list_index l v = Some p \<Longrightarrow> p < length l \<and> l ! p = v"
  by (induction l arbitrary: p) (auto split: if_splits)

lemma list_index_mem:
  "v \<in> set l \<Longrightarrow> \<exists>p. list_index l v = Some p"
  by (induction l) auto

lemma list_index_None: "list_index l v = None \<longleftrightarrow> v \<notin> set l"
  by (induction l) auto

lemma encode_cells_total:
  "(\<forall>k. i \<le> k \<and> k < length row \<and> 2 < length (row ! k) \<longrightarrow>
        row ! k \<in> set (default_get [] cm k)) \<Longrightarrow>
   \<exists>row'. encode_cells cm i row = Inr row'"
proof (induction cm i row rule: encode_cells.induct)
  case (1 cm i row)
  have later: "row ! k \<in> set (default_get [] cm k)"
    if "Suc i \<le> k" "k < length row" "2 < length (row ! k)" for k
  proof -
    from that have "i \<le> k \<and> k < length row \<and> 2 < length (row ! k)" by simp
    with "1.prems" show ?thesis by blast
  qed
  show ?case
  proof (cases "i < length row")
    case False
    then show ?thesis
      by (subst encode_cells.simps) simp
  next
    case True
    show ?thesis
    proof (cases "length (row ! i) \<le> 2")
      case short: True
      have "\<forall>k. Suc i \<le> k \<and> k < length row \<and> 2 < length (row ! k) \<longrightarrow>
              row ! k \<in> set (default_get [] cm k)"
        using later by blast
      then have "\<exists>row'. encode_cells cm (Suc i) row = Inr row'"
        by (rule "1.IH"(1) [OF True refl short])
      moreover have "encode_cells cm i row = encode_cells cm (Suc i) row"
        using True short by (subst encode_cells.simps) simp
      ultimately show ?thesis by simp
    next
      case long: False
      with True have "i \<le> i \<and> i < length row \<and> 2 < length (row ! i)" by simp
      with "1.prems" have "row ! i \<in> set (default_get [] cm i)" by blast
      from list_index_mem [OF this]
      obtain pos where pos: "list_index (default_get [] cm i) (row ! i) = Some pos" ..
      let ?row = "row[i := CHR ''&'' # str pos]"
      have "?row ! k \<in> set (default_get [] cm k)"
        if "Suc i \<le> k \<and> k < length ?row \<and> 2 < length (?row ! k)" for k
      proof -
        from that have "?row ! k = row ! k" by simp
        with that later [of k] show ?thesis by simp
      qed
      then have "\<forall>k. Suc i \<le> k \<and> k < length ?row \<and> 2 < length (?row ! k) \<longrightarrow>
            ?row ! k \<in> set (default_get [] cm k)"
        by blast
      then have "\<exists>row'. encode_cells cm (Suc i) ?row = Inr row'"
        by (rule "1.IH"(2) [OF True refl long pos])
      moreover have "encode_cells cm i row = encode_cells cm (Suc i) ?row"
        using True long pos by (subst encode_cells.simps) simp
      ultimately show ?thesis by simp
    qed
  qed
qed

lemma encode_rows_Cons_iff:
  "encode_rows cm (row # T) = Inr E \<longleftrightarrow>
     (\<exists>row' E'. E = row' # E' \<and> encode_row cm row = Inr row' \<and> encode_rows cm T = Inr E')"
  by (cases "encode_row cm row"; cases "encode_rows cm T") auto

lemma encode_rows_Inr_iff:
  "encode_rows cm T = Inr E \<longleftrightarrow>
     length E = length T \<and> (\<forall>r < length T. encode_row cm (T ! r) = Inr (E ! r))"
proof (induction T arbitrary: E)
  case Nil
  show ?case by (cases E) simp_all
next
  case step: (Cons row T)
  show ?case
  proof (cases E)
    case Nil
    then show ?thesis by (simp add: encode_rows_Cons_iff del: encode_rows.simps)
  next
    case (Cons row' E')
    then show ?thesis
      by (simp add: encode_rows_Cons_iff step.IH All_less_Suc2 del: encode_rows.simps) blast
  qed
qed


lemma decode_rows_Cons_iff:
  "decode_rows m (row # T) = Inr E \<longleftrightarrow>
     (\<exists>row' E'. E = row' # E' \<and> decode_row m row = Inr row' \<and> decode_rows m T = Inr E')"
  by (cases "decode_row m row"; cases "decode_rows m T") auto

lemma decode_rows_Inr_iff:
  "decode_rows m T = Inr E \<longleftrightarrow>
     length E = length T \<and> (\<forall>r < length T. decode_row m (T ! r) = Inr (E ! r))"
proof (induction T arbitrary: E)
  case Nil
  show ?case by (cases E) simp_all
next
  case step: (Cons row T)
  show ?case
  proof (cases E)
    case Nil
    then show ?thesis by (simp add: decode_rows_Cons_iff del: decode_rows.simps)
  next
    case (Cons row' E')
    then show ?thesis
      by (simp add: decode_rows_Cons_iff step.IH All_less_Suc2 del: decode_rows.simps) blast
  qed
qed

lemma encode_rows_total:
  assumes "\<forall>row \<in> set T. \<exists>row'. encode_row cm row = Inr row'"
  shows "\<exists>E. encode_rows cm T = Inr E"
  using assms
proof (induction T)
  case Nil
  show ?case by simp
next
  case (Cons row T)
  then obtain row' E where "encode_row cm row = Inr row'" "encode_rows cm T = Inr E"
    by auto
  then show ?case by simp
qed

lemma column_cells_mem:
  "v \<in> set (column_cells T i) \<longleftrightarrow> (\<exists>row \<in> set T. i < length row \<and> v = row ! i)"
  by (auto simp: column_cells_def)

lemma cell_in_ranking:
  assumes "row \<in> set T" "i < length row" "2 < length (row ! i)"
  shows "row ! i \<in> set (ranking T i)"
  unfolding set_ranking counted_cells_def using assms by (auto simp: column_cells_mem)

lemma ranking_long: "v \<in> set (ranking T i) \<Longrightarrow> 2 < length v"
  unfolding set_ranking by (rule counted_cells_long)

text \<open>The encoder on the table that the map was built from.\<close>

lemma encode_built:
  "\<exists>E. encode_rows (get_conversion_map T) T = Inr E \<and> length E = length T \<and>
     (\<forall>r < length T. length (E ! r) = length (T ! r) \<and>
        (\<forall>i < length (T ! r).
           if length (T ! r ! i) \<le> 2 then E ! r ! i = T ! r ! i
           else \<exists>pos. list_index (ranking T i) (T ! r ! i) = Some pos \<and>
                      pos < length (ranking T i) \<and> ranking T i ! pos = T ! r ! i \<and>
                      E ! r ! i = CHR ''&'' # str pos))"
proof -
  let ?cm = "get_conversion_map T"
  have "\<exists>row'. encode_row ?cm row = Inr row'" if "row \<in> set T" for row
    unfolding encode_row_def
    by (rule encode_cells_total) (use that cell_in_ranking in \<open>simp add: conversion_map_column\<close>)
  then obtain E where E: "encode_rows ?cm T = Inr E"
    using encode_rows_total by blast
  then have len: "length E = length T"
    and rows: "\<And>r. r < length T \<Longrightarrow> encode_row ?cm (T ! r) = Inr (E ! r)"
    by (simp_all add: encode_rows_Inr_iff)
  have "length (E ! r) = length (T ! r) \<and>
        (\<forall>i < length (T ! r).
           if length (T ! r ! i) \<le> 2 then E ! r ! i = T ! r ! i
           else \<exists>pos. list_index (ranking T i) (T ! r ! i) = Some pos \<and>
                      pos < length (ranking T i) \<and> ranking T i ! pos = T ! r ! i \<and>
                      E ! r ! i = CHR ''&'' # str pos)"
    if r: "r < length T" for r
  proof -
    have enc: "length (E ! r) = length (T ! r)"
      "\<And>k. k < length (T ! r) \<Longrightarrow>
        if length (T ! r ! k) \<le> 2 then E ! r ! k = T ! r ! k
        else \<exists>pos. list_index (ranking T k) (T ! r ! k) = Some pos \<and>
                   E ! r ! k = CHR ''&'' # str pos"
      using rows [OF r] unfolding encode_row_def encode_cells_Inr_iff conversion_map_column
      by simp_all
    show ?thesis
    proof (intro conjI allI impI)
      show "length (E ! r) = length (T ! r)"
        by (rule enc(1))
    next
      fix i assume i: "i < length (T ! r)"
      show "if length (T ! r ! i) \<le> 2 then E ! r ! i = T ! r ! i
           else \<exists>pos. list_index (ranking T i) (T ! r ! i) = Some pos \<and>
                      pos < length (ranking T i) \<and> ranking T i ! pos = T ! r ! i \<and>
                      E ! r ! i = CHR ''&'' # str pos"
      proof (cases "length (T ! r ! i) \<le> 2")
        case True
        with enc(2) [OF i] show ?thesis by simp
      next
        case False
        with enc(2) [OF i] obtain pos where
          pos: "list_index (ranking T i) (T ! r ! i) = Some pos" "E ! r ! i = CHR ''&'' # str pos"
          by auto
        from list_index_Some [OF pos(1)] pos False show ?thesis
          by simp
      qed
    qed
  qed
  with E len show ?thesis by blast
qed

lemma json_reload_lookup: "json_reload cm (str i) = map_of cm i"
  unfolding json_reload_def by (induction cm) (auto dest: str_inj)

text \<open>Decoding what the encoder made of a table, with the reloaded map of that table.\<close>

lemma decode_encoded:
  assumes "\<forall>row \<in> set T. \<forall>v \<in> set row. length v \<le> 2 \<longrightarrow> \<not> startswith_marker v"
  shows "\<exists>E. encode_rows (get_conversion_map T) T = Inr E \<and>
             decode_rows (json_reload (get_conversion_map T)) E = Inr T"
proof -
  let ?m = "json_reload (get_conversion_map T)"
  obtain E where E: "encode_rows (get_conversion_map T) T = Inr E" "length E = length T"
    and cells: "\<And>r i. r < length T \<Longrightarrow> i < length (T ! r) \<Longrightarrow>
           if length (T ! r ! i) \<le> 2 then E ! r ! i = T ! r ! i
           else \<exists>pos. list_index (ranking T i) (T ! r ! i) = Some pos \<and>
                      pos < length (ranking T i) \<and> ranking T i ! pos = T ! r ! i \<and>
                      E ! r ! i = CHR ''&'' # str pos"
    and len: "\<And>r. r < length T \<Longrightarrow> length (E ! r) = length (T ! r)"
    using encode_built [of T] by metis
  have cell: "decode_cell ?m i (E ! r ! i) = Inr (T ! r ! i)"
    if r: "r < length T" and i: "i < length (T ! r)" for r i
  proof (cases "length (T ! r ! i) \<le> 2")
    case True
    have "T ! r \<in> set T" "T ! r ! i \<in> set (T ! r)"
      using r i by simp_all
    with assms True have "\<not> startswith_marker (T ! r ! i)"
      by blast
    moreover have "E ! r ! i = T ! r ! i"
      using cells [OF r i] True by simp
    ultimately show ?thesis
      by (simp add: decode_cell_plain)
  next
    case False
    with cells [OF r i] obtain pos where
      pos: "pos < length (ranking T i)" "ranking T i ! pos = T ! r ! i"
        "E ! r ! i = CHR ''&'' # str pos"
      by auto
    have "T ! r ! i \<in> set (ranking T i)"
      using pos(1,2) by (metis nth_mem)
    then have "counted_cells T i \<noteq> []"
      unfolding set_ranking by auto
    then have "?m (str i) = Some (ranking T i)"
      by (simp add: json_reload_lookup map_of_conversion_map)
    then show ?thesis
      using pos by (simp add: decode_cell_def marker_str py_int_str py_getitem_nat)
  qed
  have "decode_row ?m (E ! r) = Inr (T ! r)" if r: "r < length T" for r
    unfolding decode_row_def decode_cells_Inr_iff
    using len [OF r] cell [OF r] by simp
  then have "decode_rows ?m E = Inr T"
    unfolding decode_rows_Inr_iff using E(2) by simp
  with E(1) show ?thesis by blast
qed

section \<open>The line of the conversion map\<close>

lemma set_join: "set (join sep xs) \<subseteq> set sep \<union> \<Union> (set ` set xs)"
  by (induction sep xs rule: join.induct) auto

lemma of_char_less_256: "of_char (c :: char) < (256 :: nat)"
  by (cases c) simp

lemma hex_digit_no_line_end: "d < 16 \<Longrightarrow> hex_digit d \<noteq> CR \<and> hex_digit d \<noteq> LF"
proof -
  assume "d < 16"
  then have "d \<in> {0, 1, 2, 3, 4, 5, 6, 7, 8, 9, 10, 11, 12, 13, 14, 15}"
    by simp arith
  then show ?thesis
    by (auto simp: hex_digit_def CR_def LF_def)
qed

lemma json_escape_no_line_end: "CR \<notin> set (json_escape c) \<and> LF \<notin> set (json_escape c)"
proof -
  have "of_char c div 16 < (16 :: nat)" "of_char c mod 16 < (16 :: nat)"
    using of_char_less_256 [of c] by arith+
  then have "hex_digit (of_char c div 16) \<noteq> CR" "hex_digit (of_char c div 16) \<noteq> LF"
    "hex_digit (of_char c mod 16) \<noteq> CR" "hex_digit (of_char c mod 16) \<noteq> LF"
    using hex_digit_no_line_end by blast+
  then show ?thesis
    by (auto simp: json_escape_def CR_def LF_def QUOTE_def BACKSLASH_def)
qed

lemma json_string_no_line_end: "CR \<notin> set (json_string s) \<and> LF \<notin> set (json_string s)"
  using json_escape_no_line_end by (auto simp: json_string_def CR_def LF_def QUOTE_def)

lemma json_list_no_line_end: "CR \<notin> set (json_list xs) \<and> LF \<notin> set (json_list xs)"
proof -
  have "set (join '', '' (map json_string xs)) \<subseteq> set '', '' \<union> \<Union> (set ` set (map json_string xs))"
    by (rule set_join)
  moreover have "CR \<notin> set '', ''" "LF \<notin> set '', ''"
    by (simp_all add: CR_def LF_def)
  moreover have "CR \<notin> \<Union> (set ` set (map json_string xs))" "LF \<notin> \<Union> (set ` set (map json_string xs))"
    using json_string_no_line_end by auto
  ultimately have "CR \<notin> set (join '', '' (map json_string xs))"
    "LF \<notin> set (join '', '' (map json_string xs))"
    by blast+
  then show ?thesis
    by (simp add: json_list_def CR_def LF_def)
qed

lemma str_chars: "c \<in> set (str n) \<Longrightarrow> py_isdigit c"
proof (induction n rule: str.induct)
  case (1 n)
  show ?case
  proof (cases "n < 10")
    case True
    with "1.prems" show ?thesis
      by (simp add: str_unfold digit_char_props)
  next
    case False
    have "n mod 10 < 10" by simp
    with "1.prems" "1.IH" [OF False] False show ?thesis
      by (auto simp: str_unfold digit_char_props)
  qed
qed

lemma str_no_line_end: "CR \<notin> set (str n) \<and> LF \<notin> set (str n)"
  using str_chars [of CR n] str_chars [of LF n]
  by (auto simp: py_isdigit_def CR_def LF_def)

lemma json_dump_no_line_end: "CR \<notin> set (json_dump m) \<and> LF \<notin> set (json_dump m)"
proof -
  let ?items = "map (\<lambda>(index, column). QUOTE # str index @ [QUOTE] @ '': '' @ json_list column) m"
  have "CR \<notin> set x \<and> LF \<notin> set x" if "x \<in> set ?items" for x
  proof -
    from that obtain index column where
      "x = QUOTE # str index @ [QUOTE] @ '': '' @ json_list column"
      by auto
    then show ?thesis
      using str_no_line_end [of index] json_list_no_line_end [of column]
      by (simp add: CR_def LF_def QUOTE_def)
  qed
  moreover have "set (join '', '' ?items) \<subseteq> set '', '' \<union> \<Union> (set ` set ?items)"
    by (rule set_join)
  moreover have "CR \<notin> set '', ''" "LF \<notin> set '', ''"
    by (simp_all add: CR_def LF_def)
  ultimately have "CR \<notin> set (join '', '' ?items)" "LF \<notin> set (join '', '' ?items)"
    by blast+
  then show ?thesis
    by (simp add: json_dump_def CR_def LF_def)
qed

lemma readline_line_end:
  "CR \<notin> set s \<Longrightarrow> LF \<notin> set s \<Longrightarrow> readline (s @ CR # LF # rest) = (s @ [CR, LF], rest)"
  by (induction s) (auto simp: CR_def LF_def)

section \<open>Loading a dumped map\<close>

lemma hex_value_hex_digit: "d < 16 \<Longrightarrow> hex_value (hex_digit d) = Some d"
proof -
  assume "d < 16"
  then have "d \<in> {0, 1, 2, 3, 4, 5, 6, 7, 8, 9, 10, 11, 12, 13, 14, 15}"
    by simp arith
  then show ?thesis
    by (auto simp: hex_digit_def hex_value_def)
qed

lemma hex_value_zero: "hex_value (CHR ''0'') = Some 0"
  by (simp add: hex_value_def)

lemma char_of_div_mod: "char_of (16 * (of_char c div 16) + of_char c mod 16 :: nat) = c"
  by simp

lemma scan_string_escape:
  "scan_string (json_escape c @ rest) =
     map_option (\<lambda>(s, t). (c # s, t)) (scan_string rest)"
proof -
  have div: "of_char c div 16 < (16 :: nat)" and md: "of_char c mod 16 < (16 :: nat)"
    using of_char_less_256 [of c] by arith+
  consider (quote) "c = QUOTE" | (backslash) "c = BACKSLASH" | (lf) "c = LF" | (cr) "c = CR"
    | (tab) "c = CHR 0x09" | (bs) "c = CHR 0x08" | (ff) "c = CHR 0x0C"
    | (hex) "c \<noteq> QUOTE" "c \<noteq> BACKSLASH" "c \<noteq> LF" "c \<noteq> CR" "c \<noteq> CHR 0x09" "c \<noteq> CHR 0x08"
        "c \<noteq> CHR 0x0C" "of_char c < (32 :: nat) \<or> (126 :: nat) < of_char c"
    | (plain) "c \<noteq> QUOTE" "c \<noteq> BACKSLASH" "\<not> of_char c < (32 :: nat)"
        "\<not> (126 :: nat) < of_char c" "c \<noteq> LF" "c \<noteq> CR" "c \<noteq> CHR 0x09" "c \<noteq> CHR 0x08"
        "c \<noteq> CHR 0x0C"
    by blast
  then show ?thesis
  proof cases
    case quote
    then show ?thesis
      by (simp add: json_escape_def json_unescape_def QUOTE_def BACKSLASH_def)
  next
    case backslash
    then show ?thesis
      by (simp add: json_escape_def json_unescape_def QUOTE_def BACKSLASH_def)
  next
    case lf
    then show ?thesis
      by (simp add: json_escape_def json_unescape_def QUOTE_def BACKSLASH_def LF_def CR_def)
  next
    case cr
    then show ?thesis
      by (simp add: json_escape_def json_unescape_def QUOTE_def BACKSLASH_def LF_def CR_def)
  next
    case tab
    then show ?thesis
      by (simp add: json_escape_def json_unescape_def QUOTE_def BACKSLASH_def LF_def CR_def)
  next
    case bs
    then show ?thesis
      by (simp add: json_escape_def json_unescape_def QUOTE_def BACKSLASH_def LF_def CR_def)
  next
    case ff
    then show ?thesis
      by (simp add: json_escape_def json_unescape_def QUOTE_def BACKSLASH_def LF_def CR_def)
  next
    case hex
    have esc: "json_escape c = [BACKSLASH, CHR ''u'', CHR ''0'', CHR ''0'',
         hex_digit (of_char c div 16), hex_digit (of_char c mod 16)]"
      using hex by (simp add: json_escape_def)
    show ?thesis
      unfolding esc
      using hex_value_hex_digit [OF div] hex_value_hex_digit [OF md] hex_value_zero
      by (simp add: QUOTE_def BACKSLASH_def)
  next
    case plain
    then have esc: "json_escape c = [c]"
      by (simp add: json_escape_def)
    show ?thesis
      unfolding esc using plain by simp
  qed
qed

lemma scan_string_escaped:
  "scan_string (concat (map json_escape s) @ QUOTE # rest) = Some (s, rest)"
proof (induction s)
  case Nil
  show ?case by simp
next
  case (Cons c s)
  then show ?case
    by (simp add: scan_string_escape del: scan_string.simps)
qed

lemma json_escape_digit: "py_isdigit c \<Longrightarrow> json_escape c = [c]"
  by (auto simp: py_isdigit_def json_escape_def QUOTE_def BACKSLASH_def LF_def CR_def)

lemma concat_singletons: "(\<And>c. c \<in> set s \<Longrightarrow> f c = [c]) \<Longrightarrow> concat (map f s) = s"
  by (induction s) simp_all

lemma json_escape_str: "concat (map json_escape (str n)) = str n"
  by (rule concat_singletons) (simp add: str_chars json_escape_digit)

lemma scan_string_str: "scan_string (str n @ QUOTE # rest) = Some (str n, rest)"
  using scan_string_escaped [of "str n" rest] by (simp add: json_escape_str)


lemma json_ws_simps [simp]:
  "\<not> json_ws QUOTE" "\<not> json_ws (CHR '']'')" "\<not> json_ws (CHR '','')" "json_ws (CHR '' '')"
  "\<not> json_ws (CHR ''{'')" "\<not> json_ws (CHR ''}'')" "\<not> json_ws (CHR '':'')"
  "\<not> json_ws (CHR ''['')" "json_ws CR" "json_ws LF"
  by (simp_all add: json_ws_def QUOTE_def LF_def CR_def)

lemma QUOTE_simps [simp]:
  "QUOTE \<noteq> CHR '']''" "QUOTE \<noteq> CHR '',''" "QUOTE \<noteq> CHR ''}''" "QUOTE \<noteq> CHR '':''"
  "QUOTE \<noteq> CHR ''[''" "QUOTE \<noteq> CHR ''{''" "QUOTE \<noteq> CHR '' ''"
  "CHR '']'' \<noteq> QUOTE" "CHR '','' \<noteq> QUOTE" "CHR ''}'' \<noteq> QUOTE" "CHR '':'' \<noteq> QUOTE"
  "CHR ''['' \<noteq> QUOTE" "CHR ''{'' \<noteq> QUOTE" "CHR '' '' \<noteq> QUOTE"
  by (simp_all add: QUOTE_def)

lemma scan_items_dumped:
  "scan_items (join '', '' (map json_string (x # xs)) @ CHR '']'' # rest) = Some (x # xs, rest)"
proof (induction xs arbitrary: x)
  case Nil
  show ?case
    by (subst scan_items.simps)
      (simp add: json_string_def scan_string_escaped del: scan_string.simps)
next
  case (Cons y ys)
  obtain t where t: "join '', '' (json_string y # map json_string ys) = QUOTE # t"
    by (cases ys) (simp_all add: json_string_def)
  have "scan_items (join '', '' (map json_string (x # y # ys)) @ CHR '']'' # rest) =
      map_option (\<lambda>(vs, t). (x # vs, t))
        (scan_items (join '', '' (map json_string (y # ys)) @ CHR '']'' # rest))"
    by (subst scan_items.simps)
      (simp add: json_string_def [of x] scan_string_escaped t del: scan_string.simps)
  then show ?case
    using Cons [of y] by simp
qed

lemma scan_array_dumped: "scan_array (json_list xs @ rest) = Some (xs, rest)"
proof (cases xs)
  case Nil
  then show ?thesis
    by (simp add: scan_array_def json_list_def)
next
  case (Cons x xs')
  obtain t where t: "join '', '' (map json_string (x # xs')) = QUOTE # t"
    by (cases xs') (simp_all add: json_string_def)
  have "scan_array (json_list xs @ rest) =
      scan_items (join '', '' (map json_string (x # xs')) @ CHR '']'' # rest)"
    unfolding Cons json_list_def scan_array_def t by simp
  then show ?thesis
    using scan_items_dumped [of x xs' rest] Cons by simp
qed


lemma json_list_bracket: "\<exists>t. json_list xs = CHR ''['' # t"
  by (simp add: json_list_def)

lemma scan_members_dumped:
  "scan_members
     (join '', '' (map (\<lambda>(index, column). QUOTE # str index @ [QUOTE] @ '': '' @ json_list column)
                     (e # es)) @ CHR ''}'' # rest) =
   Some (map (\<lambda>(index, column). (str index, column)) (e # es), rest)"
proof (induction es arbitrary: e)
  case Nil
  obtain k l where e: "e = (k, l)"
    by (cases e)
  obtain t where t: "json_list l = CHR ''['' # t"
    using json_list_bracket by blast
  have arr: "scan_array (CHR ''['' # t @ CHR ''}'' # rest) = Some (l, CHR ''}'' # rest)"
    using scan_array_dumped [of l "CHR ''}'' # rest"] t by simp
  show ?case
    unfolding e
    by (subst scan_members.simps)
      (simp add: scan_string_str t arr del: scan_string.simps)
next
  case (Cons f fs)
  obtain k l where e: "e = (k, l)"
    by (cases e)
  obtain t where t: "json_list l = CHR ''['' # t"
    using json_list_bracket by blast
  let ?item = "\<lambda>(index, column). QUOTE # str index @ [QUOTE] @ '': '' @ json_list column"
  define more where "more = join '', '' (map ?item (f # fs)) @ CHR ''}'' # rest"
  obtain u where u: "more = QUOTE # u"
    unfolding more_def by (cases f; cases fs) simp_all
  have text_eq: "join '', '' (map ?item (e # f # fs)) @ CHR ''}'' # rest =
      QUOTE # str k @ QUOTE # CHR '':'' # CHR '' '' # CHR ''['' # t @ CHR '','' # CHR '' '' # more"
    by (simp add: e t more_def)
  have arr: "scan_array (CHR ''['' # t @ CHR '','' # CHR '' '' # more) =
      Some (l, CHR '','' # CHR '' '' # more)"
    using scan_array_dumped [of l "CHR '','' # CHR '' '' # more"] t by simp
  have "scan_members (join '', '' (map ?item (e # f # fs)) @ CHR ''}'' # rest) =
      map_option (\<lambda>(ms, t). ((str k, l) # ms, t)) (scan_members more)"
    unfolding text_eq
    by (subst scan_members.simps)
      (simp add: scan_string_str arr [unfolded u] u del: scan_string.simps)
  then show ?case
    using Cons [of f] e by (simp add: more_def)
qed

lemma distinct_reloaded_keys:
  "distinct (map fst m) \<Longrightarrow>
   distinct (map fst (map (\<lambda>(index, column). (str index, column)) m))"
proof -
  assume "distinct (map fst m)"
  then have "distinct (map str (map fst m))"
    using inj_str by (simp only: distinct_map) (metis inj_on_subset subset_UNIV)
  moreover have "map fst (map (\<lambda>(index, column). (str index, column)) m) = map str (map fst m)"
    by (simp add: comp_def case_prod_unfold)
  ultimately show ?thesis
    by (simp only:)
qed

lemma json_loads_dumped:
  assumes "distinct (map fst m)"
  shows "json_loads (json_dump m @ [CR, LF]) = Some (json_reload m)"
proof (cases m)
  case Nil
  then show ?thesis
    by (simp add: json_loads_def json_dump_def json_reload_def)
next
  case (Cons e es)
  let ?item = "\<lambda>(index, column). QUOTE # str index @ [QUOTE] @ '': '' @ json_list column"
  let ?entries = "map (\<lambda>(index, column). (str index, column)) m"
  define items where "items = join '', '' (map ?item m)"
  obtain u where u: "items = QUOTE # u"
    unfolding items_def Cons by (cases e; cases es) simp_all
  have dump: "json_dump m @ [CR, LF] = CHR ''{'' # QUOTE # u @ CHR ''}'' # [CR, LF]"
    unfolding json_dump_def items_def [symmetric] by (simp add: u)
  have members: "scan_members (QUOTE # u @ CHR ''}'' # [CR, LF]) = Some (?entries, [CR, LF])"
    using scan_members_dumped [of e es "[CR, LF]"] u Cons by (simp add: items_def)
  have "json_loads (json_dump m @ [CR, LF]) = Some (map_of (rev ?entries))"
    unfolding dump json_loads_def using members by simp
  moreover have "map_of (rev ?entries) = map_of ?entries"
    using distinct_reloaded_keys [OF assms]
    by (subst map_of_inject_set) (simp_all add: distinct_rev rev_map [symmetric])
  ultimately show ?thesis
    by (simp add: json_reload_def)
qed

section \<open>Reading written rows\<close>

lemma marks_after_cr: "c \<noteq> LF \<Longrightarrow> marks AFTER_CR (c # cs) = None # marks AT_START (c # cs)"
  by simp

lemma marks_in_line: "marks IN_LINE (c # cs) = marks AT_START (c # cs)"
  by simp

lemma lines_marks:
  "concat (map (\<lambda>l. map Some l @ [None]) (file_lines cur s)) =
     map Some cur @ marks (if cur = [] then AT_START else IN_LINE) s"
proof (induction cur s rule: file_lines.induct)
  case (1 cur)
  show ?case by simp
next
  case (2 cur c cs)
  show ?case
  proof (cases "c = LF")
    case True
    with 2 show ?thesis by simp
  next
    case nlf: False
    show ?thesis
    proof (cases "c = CR")
      case False
      with nlf 2 show ?thesis by simp
    next
      case cr: True
      have crlf: "CR \<noteq> LF"
        by (simp add: CR_def LF_def)
      show ?thesis
      proof (cases cs)
        case Nil
        with cr crlf show ?thesis by simp
      next
        case (Cons d ds)
        show ?thesis
        proof (cases "d = LF")
          case True
          with cr crlf Cons "2.IH"(2) [OF nlf cr Cons True] show ?thesis
            by simp
        next
          case False
          with cr crlf Cons "2.IH"(3) [OF nlf cr Cons False] show ?thesis
            by simp
        qed
      qed
    qed
  qed
qed

lemma run_line:
  "run p (map Some l @ None # ms) =
     (case parse_line p l of
        Inl e \<Rightarrow> Inl e
      | Inr (state, field, fields) \<Rightarrow>
          if state = START_RECORD then
            (case run (START_RECORD, [], []) ms of
               Inl e \<Rightarrow> Inl e
             | Inr rows \<Rightarrow> Inr (fields # rows))
          else run (state, field, fields) ms)"
proof (induction l arbitrary: p)
  case Nil
  show ?case by (simp split: sum.splits)
next
  case (Cons c l)
  show ?case
  proof (cases "parse_process_char p (Some c)")
    case (Inl e)
    then show ?thesis by simp
  next
    case (Inr p')
    obtain st f fs where p': "p' = (st, f, fs)"
      by (cases p')
    show ?thesis
      using Inr Cons [of p'] by (simp add: p')
  qed
qed

lemma records_run:
  "csv_records p ls = run p (concat (map (\<lambda>l. map Some l @ [None]) ls))"
proof (induction ls arbitrary: p)
  case Nil
  show ?case by simp
next
  case (Cons l ls)
  show ?case
    by (simp add: run_line Cons del: csv_records.simps(1) split: sum.splits prod.splits)
qed

lemma csv_reader_run: "csv_reader s = run (START_RECORD, [], []) (marks AT_START s)"
  by (simp add: csv_reader_def records_run lines_marks)

lemma csv_chars [simp]:
  "QUOTE \<noteq> LF" "QUOTE \<noteq> CR" "CR \<noteq> LF" "LF \<noteq> CR" "LF \<noteq> QUOTE" "CR \<noteq> QUOTE"
  "CHR '','' \<noteq> LF" "CHR '','' \<noteq> CR" "CHR '','' \<noteq> QUOTE"
  "LF \<noteq> CHR '',''" "CR \<noteq> CHR '',''" "QUOTE \<noteq> CHR '',''"
  by (simp_all add: QUOTE_def LF_def CR_def)

text \<open>Inside quotes every character but the quote is taken as it is, line ends included.\<close>

lemma run_quoted_char:
  "c \<noteq> QUOTE \<Longrightarrow>
   run (IN_QUOTED_FIELD, f, fs) (marks pos (c # s)) =
     run (IN_QUOTED_FIELD, f @ [c], fs)
       (marks (if c = LF then AT_START else if c = CR then AFTER_CR else IN_LINE) s)"
  by (cases s) auto

lemma run_quoted_quote:
  "run (IN_QUOTED_FIELD, f, fs) (marks pos (QUOTE # QUOTE # s)) =
     run (IN_QUOTED_FIELD, f @ [QUOTE], fs) (marks IN_LINE s)"
  by (cases s) auto

lemma run_closing_quote:
  "run (IN_QUOTED_FIELD, f, fs) (marks pos (QUOTE # s)) =
     run (QUOTE_IN_QUOTED_FIELD, f, fs) (marks IN_LINE s)"
  by (cases s) auto

lemma run_quoted_body:
  "run (IN_QUOTED_FIELD, f, fs)
     (marks pos (concat (map (\<lambda>c. if c = QUOTE then [c, c] else [c]) field) @ QUOTE # rest)) =
   run (QUOTE_IN_QUOTED_FIELD, f @ field, fs) (marks IN_LINE rest)"
proof (induction field arbitrary: f pos)
  case Nil
  show ?case
    using run_closing_quote [of f fs pos rest] by simp
next
  case (Cons c field)
  show ?case
  proof (cases "c = QUOTE")
    case True
    then show ?thesis
      using run_quoted_quote [of f fs pos] Cons [of "f @ [QUOTE]" IN_LINE]
      by (simp del: run.simps marks.simps)
  next
    case False
    then show ?thesis
      using run_quoted_char [OF False, of f fs pos] Cons [of "f @ [c]"]
      by (simp del: run.simps marks.simps)
  qed
qed


text \<open>Outside quotes an ordinary character joins the field.\<close>

lemma run_plain_char:
  assumes "c \<noteq> CHR '',''" "c \<noteq> QUOTE" "c \<noteq> CR" "c \<noteq> LF"
    and "pos \<noteq> AFTER_CR"
    and "st = START_RECORD \<or> st = START_FIELD \<or> st = IN_FIELD"
  shows "run (st, f, fs) (marks pos (c # s)) = run (IN_FIELD, f @ [c], fs) (marks IN_LINE s)"
  using assms by (auto simp: start_field_def)

lemma run_plain:
  assumes "\<forall>c \<in> set t. c \<noteq> CHR '','' \<and> c \<noteq> QUOTE \<and> c \<noteq> CR \<and> c \<noteq> LF"
    and "t \<noteq> []" and "pos \<noteq> AFTER_CR"
    and "st = START_RECORD \<or> st = START_FIELD \<or> st = IN_FIELD"
  shows "run (st, f, fs) (marks pos (t @ rest)) = run (IN_FIELD, f @ t, fs) (marks IN_LINE rest)"
  using assms
proof (induction t arbitrary: st f pos)
  case Nil
  then show ?case by simp
next
  case (Cons c t)
  have step: "run (st, f, fs) (marks pos (c # t @ rest)) =
      run (IN_FIELD, f @ [c], fs) (marks IN_LINE (t @ rest))"
    using Cons.prems by (intro run_plain_char) simp_all
  show ?case
  proof (cases "t = []")
    case True
    with step show ?thesis by (simp del: run.simps marks.simps)
  next
    case False
    have "run (IN_FIELD, f @ [c], fs) (marks IN_LINE (t @ rest)) =
        run (IN_FIELD, (f @ [c]) @ t, fs) (marks IN_LINE rest)"
      using Cons.prems False by (intro Cons.IH) simp_all
    with step show ?thesis by (simp del: run.simps marks.simps)
  qed
qed

text \<open>The comma ends a field, the line end \<open>\r\n\<close> ends the record.\<close>

lemma run_comma:
  assumes "st = START_RECORD \<or> st = START_FIELD \<or> st = IN_FIELD \<or> st = QUOTE_IN_QUOTED_FIELD"
    and "pos \<noteq> AFTER_CR"
  shows "run (st, f, fs) (marks pos (CHR '','' # s)) = run (START_FIELD, [], fs @ [f]) (marks IN_LINE s)"
  using assms by (auto simp: start_field_def)

lemma run_line_end:
  assumes "st = START_FIELD \<or> st = IN_FIELD \<or> st = QUOTE_IN_QUOTED_FIELD"
    and "pos \<noteq> AFTER_CR"
  shows "run (st, f, fs) (marks pos (CR # LF # s)) =
     (case run (START_RECORD, [], []) (marks AT_START s) of
        Inl e \<Rightarrow> Inl e
      | Inr rows \<Rightarrow> Inr ((fs @ [f]) # rows))"
  using assms by (auto simp: start_field_def)

lemma run_empty_row:
  assumes "pos \<noteq> AFTER_CR"
  shows "run (START_RECORD, [], []) (marks pos (CR # LF # s)) =
     (case run (START_RECORD, [], []) (marks AT_START s) of
        Inl e \<Rightarrow> Inl e
      | Inr rows \<Rightarrow> Inr ([] # rows))"
  using assms by auto

lemma run_open_quote:
  assumes "st = START_RECORD \<or> st = START_FIELD" and "pos \<noteq> AFTER_CR"
  shows "run (st, f, fs) (marks pos (QUOTE # s)) = run (IN_QUOTED_FIELD, f, fs) (marks IN_LINE s)"
  using assms by (auto simp: start_field_def)


text \<open>A written field, read back up to the comma or the line end that follows it.\<close>

lemma plain_field:
  "\<not> csv_needs_quotes field \<Longrightarrow>
   \<forall>c \<in> set field. c \<noteq> CHR '','' \<and> c \<noteq> QUOTE \<and> c \<noteq> CR \<and> c \<noteq> LF"
  by (simp add: csv_needs_quotes_def list_ex_iff)

lemma run_quoted_field:
  assumes "st = START_RECORD \<or> st = START_FIELD" and "pos \<noteq> AFTER_CR"
  shows "run (st, [], fs) (marks pos (csv_quoted field @ rest)) =
         run (QUOTE_IN_QUOTED_FIELD, field, fs) (marks IN_LINE rest)"
proof -
  let ?body = "concat (map (\<lambda>c. if c = QUOTE then [c, c] else [c]) field)"
  have "run (st, [], fs) (marks pos (QUOTE # ?body @ QUOTE # rest)) =
      run (IN_QUOTED_FIELD, [], fs) (marks IN_LINE (?body @ QUOTE # rest))"
    using assms by (rule run_open_quote)
  also have "\<dots> = run (QUOTE_IN_QUOTED_FIELD, [] @ field, fs) (marks IN_LINE rest)"
    by (rule run_quoted_body)
  finally show ?thesis
    by (simp add: csv_quoted_def del: run.simps marks.simps)
qed

lemma run_field_comma:
  assumes st: "st = START_RECORD \<or> st = START_FIELD" and pos: "pos \<noteq> AFTER_CR"
  shows "run (st, [], fs) (marks pos (csv_field alone field @ CHR '','' # rest)) =
         run (START_FIELD, [], fs @ [field]) (marks IN_LINE rest)"
proof (cases "csv_needs_quotes field \<or> (alone \<and> field = [])")
  case True
  then have "run (st, [], fs) (marks pos (csv_field alone field @ CHR '','' # rest)) =
      run (QUOTE_IN_QUOTED_FIELD, field, fs) (marks IN_LINE (CHR '','' # rest))"
    using run_quoted_field [OF st pos] by (simp add: csv_field_def del: run.simps marks.simps)
  also have "\<dots> = run (START_FIELD, [], fs @ [field]) (marks IN_LINE rest)"
    by (rule run_comma) simp_all
  finally show ?thesis .
next
  case False
  then have text_eq: "csv_field alone field = field"
    by (auto simp: csv_field_def)
  show ?thesis
  proof (cases "field = []")
    case True
    have "run (st, [], fs) (marks pos (CHR '','' # rest)) =
        run (START_FIELD, [], fs @ [[]]) (marks IN_LINE rest)"
      using st pos by (intro run_comma) auto
    then show ?thesis
      using text_eq by (simp add: True del: run.simps marks.simps)
  next
    case nonempty: False
    have "run (st, [], fs) (marks pos (field @ CHR '','' # rest)) =
        run (IN_FIELD, [] @ field, fs) (marks IN_LINE (CHR '','' # rest))"
      using plain_field False nonempty pos st by (intro run_plain) auto
    also have "\<dots> = run (START_FIELD, [], fs @ [field]) (marks IN_LINE rest)"
      by (simp only: append_Nil, rule run_comma) simp_all
    finally show ?thesis
      unfolding text_eq .
  qed
qed

lemma run_field_line_end:
  assumes st: "st = START_RECORD \<or> st = START_FIELD" and pos: "pos \<noteq> AFTER_CR"
    and first: "st = START_RECORD \<longrightarrow> field \<noteq> [] \<or> alone"
  shows "run (st, [], fs) (marks pos (csv_field alone field @ CR # LF # rest)) =
     (case run (START_RECORD, [], []) (marks AT_START rest) of
        Inl e \<Rightarrow> Inl e
      | Inr rows \<Rightarrow> Inr ((fs @ [field]) # rows))"
proof (cases "csv_needs_quotes field \<or> (alone \<and> field = [])")
  case True
  then have "run (st, [], fs) (marks pos (csv_field alone field @ CR # LF # rest)) =
      run (QUOTE_IN_QUOTED_FIELD, field, fs) (marks IN_LINE (CR # LF # rest))"
    using run_quoted_field [OF st pos] by (simp add: csv_field_def del: run.simps marks.simps)
  also have "\<dots> = (case run (START_RECORD, [], []) (marks AT_START rest) of
        Inl e \<Rightarrow> Inl e
      | Inr rows \<Rightarrow> Inr ((fs @ [field]) # rows))"
    by (rule run_line_end) simp_all
  finally show ?thesis .
next
  case False
  then have text_eq: "csv_field alone field = field"
    by (auto simp: csv_field_def)
  show ?thesis
  proof (cases "field = []")
    case True
    with False first st have "st = START_FIELD"
      by auto
    then have "run (st, [], fs) (marks pos (CR # LF # rest)) =
        (case run (START_RECORD, [], []) (marks AT_START rest) of
          Inl e \<Rightarrow> Inl e
        | Inr rows \<Rightarrow> Inr ((fs @ [[]]) # rows))"
      using pos by (intro run_line_end) auto
    then show ?thesis
      using text_eq by (simp add: True del: run.simps marks.simps cong: sum.case_cong)
  next
    case nonempty: False
    have "run (st, [], fs) (marks pos (field @ CR # LF # rest)) =
        run (IN_FIELD, [] @ field, fs) (marks IN_LINE (CR # LF # rest))"
      using plain_field False nonempty pos st by (intro run_plain) auto
    also have "\<dots> = (case run (START_RECORD, [], []) (marks AT_START rest) of
        Inl e \<Rightarrow> Inl e
      | Inr rows \<Rightarrow> Inr ((fs @ [field]) # rows))"
      by (simp only: append_Nil, rule run_line_end) simp_all
    finally show ?thesis
      unfolding text_eq .
  qed
qed

text \<open>A written row, read back.\<close>

lemma run_fields:
  assumes "st = START_RECORD \<or> st = START_FIELD" and "pos \<noteq> AFTER_CR"
    and "st = START_RECORD \<longrightarrow> more \<noteq> [] \<or> field \<noteq> [] \<or> alone"
  shows "run (st, [], fs)
           (marks pos (join '','' (map (csv_field alone) (field # more)) @ CR # LF # rest)) =
     (case run (START_RECORD, [], []) (marks AT_START rest) of
        Inl e \<Rightarrow> Inl e
      | Inr rows \<Rightarrow> Inr ((fs @ field # more) # rows))"
  using assms
proof (induction more arbitrary: field st pos fs)
  case Nil
  then show ?case
    using run_field_line_end [of st pos "field" alone fs rest]
    by (simp del: run.simps marks.simps)
next
  case (Cons g more)
  have "run (st, [], fs)
       (marks pos (csv_field alone field @ CHR '','' #
          join '','' (map (csv_field alone) (g # more)) @ CR # LF # rest)) =
      run (START_FIELD, [], fs @ [field])
       (marks IN_LINE (join '','' (map (csv_field alone) (g # more)) @ CR # LF # rest))"
    using Cons.prems(1,2) by (rule run_field_comma)
  also have "\<dots> = (case run (START_RECORD, [], []) (marks AT_START rest) of
        Inl e \<Rightarrow> Inl e
      | Inr rows \<Rightarrow> Inr (((fs @ [field]) @ g # more) # rows))"
    by (rule Cons.IH) simp_all
  finally show ?case
    by (simp del: run.simps marks.simps cong: sum.case_cong)
qed

lemma run_writerow:
  "run (START_RECORD, [], []) (marks AT_START (writerow row @ rest)) =
     (case run (START_RECORD, [], []) (marks AT_START rest) of
        Inl e \<Rightarrow> Inl e
      | Inr rows \<Rightarrow> Inr (row # rows))"
proof (cases row)
  case Nil
  show ?thesis
    unfolding Nil using run_empty_row [of AT_START rest]
    by (simp add: writerow_def del: run.simps marks.simps)
next
  case (Cons field more)
  have "run (START_RECORD, [], [])
      (marks AT_START (join '','' (map (csv_field (more = [])) (field # more)) @ CR # LF # rest)) =
     (case run (START_RECORD, [], []) (marks AT_START rest) of
        Inl e \<Rightarrow> Inl e
      | Inr rows \<Rightarrow> Inr (([] @ field # more) # rows))"
    by (rule run_fields) auto
  then show ?thesis
    unfolding Cons by (simp add: writerow_def del: run.simps marks.simps cong: sum.case_cong)
qed

lemma csv_reader_written: "csv_reader (concat (map writerow rows)) = Inr rows"
proof -
  have "run (START_RECORD, [], []) (marks AT_START (concat (map writerow rows))) = Inr rows"
  proof (induction rows)
    case Nil
    show ?case by simp
  next
    case (Cons row rows)
    then show ?case
      using run_writerow [of row "concat (map writerow rows)"]
      by (simp del: run.simps marks.simps)
  qed
  then show ?thesis
    by (simp add: csv_reader_run)
qed

subsection \<open>References written in decimal digits\<close>

lemma digits_ok_digits:
  "digits \<noteq> [] \<Longrightarrow> set digits \<subseteq> set ''0123456789'' \<Longrightarrow> digits_ok digits"
proof (induction digits rule: digits_ok.induct)
  case 1
  then show ?case by simp
next
  case (2 c)
  then show ?case by (simp add: py_isdigit_def)
next
  case (3 c d cs)
  from "3.prems" have c: "py_isdigit c" and d: "d \<in> set ''0123456789''"
    and rest: "set (d # cs) \<subseteq> set ''0123456789''"
    by (simp_all add: py_isdigit_def)
  from d have "d \<noteq> CHR ''_''"
    by auto
  with c rest "3.IH"(2) show ?case
    by simp
qed

lemma digits_value_digits:
  "set digits \<subseteq> set ''0123456789'' \<Longrightarrow> digits_value digits = decimal_value digits"
proof -
  assume digits: "set digits \<subseteq> set ''0123456789''"
  then have "\<forall>c \<in> set digits. c \<noteq> CHR ''_''"
    by auto
  then have "filter (\<lambda>c. c \<noteq> CHR ''_'') digits = digits"
    by (simp add: filter_True)
  then show ?thesis
    by (simp add: digits_value_def decimal_value_def digit_value_def foldl_conv_fold)
qed

lemma digit_not_space:
  "c \<in> set ''0123456789'' \<Longrightarrow> \<not> py_isspace c \<and> c \<noteq> CHR ''-'' \<and> c \<noteq> CHR ''+''"
  by (auto simp: py_isspace_def)

lemma py_int_digits:
  assumes "digits \<noteq> []" and "set digits \<subseteq> set ''0123456789''"
  shows "py_int digits = Some (int (decimal_value digits))"
proof -
  obtain c r where cr: "digits = c # r"
    using assms(1) by (cases digits) auto
  have c: "\<not> py_isspace c" "c \<noteq> CHR ''-''" "c \<noteq> CHR ''+''"
    using assms(2) digit_not_space [of c] by (simp_all add: cr)
  obtain c' r' where rr: "rev digits = c' # r'"
    using assms(1) by (cases "rev digits") auto
  then have "c' \<in> set digits"
    by (metis list.set_intros(1) set_rev)
  with assms(2) have "c' \<in> set ''0123456789''"
    by (rule subsetD)
  from digit_not_space [OF this] have c': "\<not> py_isspace c'"
    by (rule conjunct1)
  have strip: "rev (dropWhile py_isspace (rev (dropWhile py_isspace digits))) = digits"
    using c c' rr cr by (metis dropWhile.simps(2) rev_rev_ident)
  show ?thesis
    unfolding py_int_def strip
    using c digits_ok_digits [OF assms] digits_value_digits [OF assms(2)]
    by (simp add: cr)
qed

lemma decode_cell_digits:
  assumes "digits \<noteq> []" and "set digits \<subseteq> set ''0123456789''"
    and "m (str i) = Some l"
  shows "decode_cell m i (CHR ''&'' # digits) =
     (if decimal_value digits < length l then Inr (l ! decimal_value digits) else Inl IndexError)"
  using assms(3) py_int_digits [OF assms(1,2)]
  by (simp add: decode_cell_def startswith_marker_def py_getitem_def)

lemma str_digit_text: "str n \<noteq> [] \<and> set (str n) \<subseteq> set ''0123456789''"
  using str_not_Nil [of n] str_chars [of _ n] by (auto simp: py_isdigit_def)

lemma decimal_value_str: "decimal_value (str n) = n"
  using digits_value_digits [of "str n"] str_digit_text [of n] str_digits [of n] by simp


lemma decode_row_Inr_iff:
  "decode_row m row = Inr row' \<longleftrightarrow>
     length row' = length row \<and>
     (\<forall>i < length row.
        if startswith_marker (row ! i)
        then \<exists>l pos. m (str i) = Some l \<and> py_int (drop 1 (row ! i)) = Some pos \<and>
                     py_getitem l pos = Inr (row' ! i)
        else row' ! i = row ! i)"
  unfolding decode_row_def decode_cells_Inr_iff decode_cell_Inr_iff by simp

section \<open>The decoder\<close>

text \<open>
  C7. For every cell the decoder processes at column \<open>index\<close>: a cell that begins with
  the marker and goes on with decimal digits is replaced by the value at the position
  these digits denote in the conversion map's list for that column, in particular
  \<open>&\<close> followed by \<open>str(n)\<close> by the value at position \<open>n\<close>; a cell that does not begin
  with the marker is left unchanged. The decoder returns a row whenever every marker
  cell is such a reference, of at most 4300 digits (the limit that recent Python
  versions put on \<open>int()\<close>), to a position inside the list of its column.
\<close>

theorem decode_row_cells:
  "(\<forall>row'. decode_row conversion_map row = Inr row' \<longrightarrow>
      length row' = length row \<and>
      (\<forall>index < length row.
         (\<not> startswith_marker (row ! index) \<longrightarrow> row' ! index = row ! index) \<and>
         (\<forall>digits conversion_list.
            row ! index = CHR ''&'' # digits \<and> digits \<noteq> [] \<and>
            set digits \<subseteq> set ''0123456789'' \<and>
            conversion_map (str index) = Some conversion_list \<longrightarrow>
            decimal_value digits < length conversion_list \<and>
            row' ! index = conversion_list ! decimal_value digits) \<and>
         (\<forall>n conversion_list.
            row ! index = CHR ''&'' # str n \<and>
            conversion_map (str index) = Some conversion_list \<longrightarrow>
            n < length conversion_list \<and> row' ! index = conversion_list ! n))) \<and>
   ((\<forall>index < length row.
       \<not> startswith_marker (row ! index) \<or>
       (\<exists>digits conversion_list.
          row ! index = CHR ''&'' # digits \<and> digits \<noteq> [] \<and>
          set digits \<subseteq> set ''0123456789'' \<and> length digits \<le> 4300 \<and>
          conversion_map (str index) = Some conversion_list \<and>
          decimal_value digits < length conversion_list)) \<longrightarrow>
    (\<exists>row'. decode_row conversion_map row = Inr row'))"
proof (intro conjI allI impI)
  fix row' assume dec: "decode_row conversion_map row = Inr row'"
  then show "length row' = length row"
    unfolding decode_row_def decode_cells_Inr_iff by simp
  fix index assume index: "index < length row"
  from dec index have cell: "decode_cell conversion_map index (row ! index) = Inr (row' ! index)"
    unfolding decode_row_def decode_cells_Inr_iff by simp
  {
    assume "\<not> startswith_marker (row ! index)"
    with cell show "row' ! index = row ! index"
      by (simp add: decode_cell_plain)
  }
  {
    fix digits conversion_list
    assume a: "row ! index = CHR ''&'' # digits \<and> digits \<noteq> [] \<and>
            set digits \<subseteq> set ''0123456789'' \<and>
            conversion_map (str index) = Some conversion_list"
    then have "decode_cell conversion_map index (row ! index) =
       (if decimal_value digits < length conversion_list
        then Inr (conversion_list ! decimal_value digits) else Inl IndexError)"
      using decode_cell_digits [of digits conversion_map index conversion_list] by simp
    with cell show "decimal_value digits < length conversion_list"
      and "row' ! index = conversion_list ! decimal_value digits"
      by (simp_all split: if_splits)
  }
  {
    fix n conversion_list
    assume a: "row ! index = CHR ''&'' # str n \<and>
            conversion_map (str index) = Some conversion_list"
    then have "decode_cell conversion_map index (row ! index) =
       (if decimal_value (str n) < length conversion_list
        then Inr (conversion_list ! decimal_value (str n)) else Inl IndexError)"
      using decode_cell_digits [of "str n" conversion_map index conversion_list]
        str_digit_text [of n] by simp
    with cell show "n < length conversion_list"
      and "row' ! index = conversion_list ! n"
      by (simp_all add: decimal_value_str split: if_splits)
  }
next
  assume all: "\<forall>index < length row.
       \<not> startswith_marker (row ! index) \<or>
       (\<exists>digits conversion_list.
          row ! index = CHR ''&'' # digits \<and> digits \<noteq> [] \<and>
          set digits \<subseteq> set ''0123456789'' \<and> length digits \<le> 4300 \<and>
          conversion_map (str index) = Some conversion_list \<and>
          decimal_value digits < length conversion_list)"
  have "\<exists>v. decode_cell conversion_map j (row ! j) = Inr v" if j: "j < length row" for j
  proof (cases "startswith_marker (row ! j)")
    case False
    then show ?thesis
      by (simp add: decode_cell_plain)
  next
    case True
    from all [rule_format, OF j] True
    have "\<exists>digits conversion_list.
          row ! j = CHR ''&'' # digits \<and> digits \<noteq> [] \<and>
          set digits \<subseteq> set ''0123456789'' \<and> length digits \<le> 4300 \<and>
          conversion_map (str j) = Some conversion_list \<and>
          decimal_value digits < length conversion_list"
      by simp
    then obtain digits conversion_list where
      d: "row ! j = CHR ''&'' # digits" "digits \<noteq> []" "set digits \<subseteq> set ''0123456789''"
        "conversion_map (str j) = Some conversion_list"
        "decimal_value digits < length conversion_list"
      by (elim exE conjE)
    show ?thesis
      using decode_cell_digits [where m = conversion_map and i = j, OF d(2,3,4)] d(1,5)
      by simp
  qed
  then show "\<exists>row'. decode_row conversion_map row = Inr row'"
    by (intro decode_row_total) simp
qed


theorem decode_row_cells_witness:
  "\<exists>row'. decode_row
            [''0'' \<mapsto> [''k0'', ''k1'', ''k2'', ''k3'', ''k4'', ''k5'', ''k6'', ''k7'', ''k8'', ''k9'',
                       ''k10'', ''k11''],
             ''1'' \<mapsto> [''abc'', ''xyz'']]
            [''&10'', ''&0'', ''hi''] = Inr row' \<and>
          length row' = 3 \<and> row' ! 0 = ''k10'' \<and> row' ! 1 = ''abc'' \<and> row' ! 2 = ''hi''"
proof -
  let ?m = "[''0'' \<mapsto> [''k0'', ''k1'', ''k2'', ''k3'', ''k4'', ''k5'', ''k6'', ''k7'', ''k8'', ''k9'',
                       ''k10'', ''k11''],
             ''1'' \<mapsto> [''abc'', ''xyz'']]"
  let ?row = "[''&10'', ''&0'', ''hi'']"
  have keys: "str 0 = ''0''" "str 1 = ''1''" "str 2 = ''2''"
    "str (Suc 0) = ''1''" "str (Suc (Suc 0)) = ''2''"
    by (simp_all add: str_unfold digit_char_def)
  have nums: "decimal_value ''10'' = 10" "decimal_value ''0'' = 0"
    by (simp_all add: decimal_value_def)
  have resolvable: "\<forall>index < length ?row.
       \<not> startswith_marker (?row ! index) \<or>
       (\<exists>digits conversion_list.
          ?row ! index = CHR ''&'' # digits \<and> digits \<noteq> [] \<and>
          set digits \<subseteq> set ''0123456789'' \<and> length digits \<le> 4300 \<and>
          ?m (str index) = Some conversion_list \<and>
          decimal_value digits < length conversion_list)"
    by (simp add: All_less_Suc startswith_marker_def keys nums)
  from decode_row_cells [of ?m ?row, THEN conjunct2, THEN mp, OF resolvable]
  obtain row' where dec: "decode_row ?m ?row = Inr row'" ..
  note cells = decode_row_cells [of ?m ?row, THEN conjunct1, THEN spec, THEN mp, OF dec]
  from cells have len: "length row' = 3"
    by simp
  from cells [THEN conjunct2, THEN spec, of 0]
  have c0: "row' ! 0 = ''k10''"
    by (simp add: keys nums)
  from cells [THEN conjunct2, THEN spec, of 1]
  have c1: "row' ! 1 = ''abc''"
    by (simp add: keys nums)
  from cells [THEN conjunct2, THEN spec, of 2]
  have c2: "row' ! 2 = ''hi''"
    by (simp add: startswith_marker_def)
  from dec len c0 c1 c2 show ?thesis
    by (intro exI [of _ row'] conjI)
qed

text \<open>
  C9. A marker cell whose suffix parses as a negative integer \<open>-k\<close> with
  \<open>1 \<le> k \<le> len(conversion_list)\<close> raises nothing: when the other cells of the row
  decode, the row is written with the element at position \<open>len - k\<close> in that cell.
\<close>

theorem decode_negative_index:
  assumes "index < length row"
    and "row ! index = CHR ''&'' # suffix"
    and "py_int suffix = Some (- int k)"
    and "1 \<le> k" and "k \<le> length conversion_list"
    and "conversion_map (str index) = Some conversion_list"
    and "\<forall>j < length row. j \<noteq> index \<longrightarrow> (\<exists>v. decode_cell conversion_map j (row ! j) = Inr v)"
  shows "\<exists>row'. decode_row conversion_map row = Inr row' \<and>
               row' ! index = conversion_list ! (length conversion_list - k)"
proof -
  have cell: "decode_cell conversion_map index (row ! index) =
      Inr (conversion_list ! (length conversion_list - k))"
    using assms(2,3,6) py_getitem_from_end [OF assms(4,5)]
    by (simp add: decode_cell_def startswith_marker_def)
  have "\<forall>j < length row. \<exists>v. decode_cell conversion_map j (row ! j) = Inr v"
    using cell assms(7) by metis
  then obtain row' where row': "decode_row conversion_map row = Inr row'"
    using decode_row_total by blast
  then have "decode_cell conversion_map index (row ! index) = Inr (row' ! index)"
    using assms(1) unfolding decode_row_def decode_cells_Inr_iff by simp
  with cell row' show ?thesis by simp
qed

theorem decode_negative_index_witness:
  "py_int ''-1'' = Some (- 1) \<and>
   (\<exists>row'. decode_row (json_reload [(0, [''abc'', ''xyz''])]) [''&-1''] = Inr row' \<and>
           row' ! 0 = ''xyz'')"
  using decode_negative_index [of 0 "[''&-1'']" "''-1''" 1 "[''abc'', ''xyz'']"
      "json_reload [(0, [''abc'', ''xyz''])]"]
  by (simp add: json_reload_def str_unfold digit_char_def
      py_int_def py_isspace_def py_isdigit_def digits_value_def digit_value_def)

text \<open>
  C2, as the code has it. A marker cell raises when its column has no list in the
  conversion map (\<open>KeyError\<close>), when \<open>int()\<close> rejects its suffix (\<open>ValueError\<close>), or when
  the parsed position \<open>pos\<close> is outside \<open>-len \<le> pos < len\<close> of the column's list
  (\<open>IndexError\<close>); the row is then not decoded. In particular \<open>&99\<close> in a column with
  fewer than 100 values raises \<open>IndexError\<close>.
\<close>

theorem decode_malformed_cell:
  assumes "index < length row" and "startswith_marker (row ! index)"
  shows "(conversion_map (str index) = None \<longrightarrow>
            decode_cell conversion_map index (row ! index) = Inl KeyError \<and>
            (\<exists>e. decode_row conversion_map row = Inl e)) \<and>
         (\<forall>conversion_list. conversion_map (str index) = Some conversion_list \<longrightarrow>
            (py_int (drop 1 (row ! index)) = None \<longrightarrow>
               decode_cell conversion_map index (row ! index) = Inl ValueError \<and>
               (\<exists>e. decode_row conversion_map row = Inl e)) \<and>
            (\<forall>pos. py_int (drop 1 (row ! index)) = Some pos \<and>
                   (int (length conversion_list) \<le> pos \<or> pos < - int (length conversion_list)) \<longrightarrow>
               decode_cell conversion_map index (row ! index) = Inl IndexError \<and>
               (\<exists>e. decode_row conversion_map row = Inl e)) \<and>
            (row ! index = ''&99'' \<and> length conversion_list < 100 \<longrightarrow>
               decode_cell conversion_map index (row ! index) = Inl IndexError \<and>
               (\<exists>e. decode_row conversion_map row = Inl e)))"
proof -
  have raise: "\<exists>e'. decode_row conversion_map row = Inl e'"
    if "decode_cell conversion_map index (row ! index) = Inl e" for e
    using decode_row_not_Inr [OF assms(1) that] .
  have key: "decode_cell conversion_map index (row ! index) = Inl KeyError"
    if "conversion_map (str index) = None"
    using that assms(2) by (simp add: decode_cell_def)
  have val: "decode_cell conversion_map index (row ! index) = Inl ValueError"
    if "conversion_map (str index) = Some l" "py_int (drop 1 (row ! index)) = None" for l
    using that assms(2) by (simp add: decode_cell_def)
  have idx: "decode_cell conversion_map index (row ! index) = Inl IndexError"
    if "conversion_map (str index) = Some l" "py_int (drop 1 (row ! index)) = Some pos"
      "int (length l) \<le> pos \<or> pos < - int (length l)" for l pos
    using that(1,2) assms(2) py_getitem_out_of_range [OF that(3)]
    by (simp add: decode_cell_def)
  have idx99: "decode_cell conversion_map index (row ! index) = Inl IndexError"
    if "conversion_map (str index) = Some l" "row ! index = ''&99''" "length l < 100" for l
    using idx [OF that(1), of 99] that(2,3) py_int_99 by simp
  show ?thesis
    using raise key val idx idx99 by blast
qed

theorem decode_malformed_cell_witness:
  "decode_cell (json_reload [(0, [''abc'', ''xyz''])]) 1 ''&0'' = Inl KeyError \<and>
   decode_cell (json_reload [(0, [''abc'', ''xyz''])]) 0 ''&x'' = Inl ValueError \<and>
   decode_cell (json_reload [(0, [''abc'', ''xyz''])]) 0 ''&2'' = Inl IndexError \<and>
   decode_cell (json_reload [(0, [''abc'', ''xyz''])]) 0 ''&99'' = Inl IndexError \<and>
   (\<exists>e. decode_row (json_reload [(0, [''abc'', ''xyz''])]) [''&99''] = Inl e)"
  using decode_malformed_cell [of 1 "[''hi'', ''&0'']" "json_reload [(0, [''abc'', ''xyz''])]"]
    decode_malformed_cell [of 0 "[''&x'']" "json_reload [(0, [''abc'', ''xyz''])]"]
    decode_malformed_cell [of 0 "[''&2'']" "json_reload [(0, [''abc'', ''xyz''])]"]
    decode_malformed_cell [of 0 "[''&99'']" "json_reload [(0, [''abc'', ''xyz''])]"]
  by (simp add: json_reload_def str_unfold digit_char_def startswith_marker_def
      py_int_def py_isspace_def py_isdigit_def digits_value_def digit_value_def)

text \<open>
  The claim as stated fails: the suffix of \<open>&-2\<close> is not a non-negative integer, yet
  the cell decodes, to the value two places from the end of the column's list.
\<close>

theorem decode_negative_suffix_counterexample:
  "decode_row (json_reload [(0, [''abc'', ''xyz''])]) [''&-2''] = Inr [''abc'']"
  by (simp add: decode_row_def decode_cells.simps decode_cell_def json_reload_def
      str_unfold digit_char_def startswith_marker_def py_getitem_def
      py_int_def py_isspace_def py_isdigit_def digits_value_def digit_value_def)

section \<open>The conversion map\<close>

text \<open>
  C5. Every list of the built conversion map has no duplicates, does not contain the
  empty string and holds only values longer than two characters: it holds exactly the
  values of its column that are longer than two characters. A column
  \<open>["", "", "hello world", "hello world", "hi"]\<close> gives the list \<open>["hello world"]\<close>.
\<close>

theorem conversion_map_columns:
  "(\<forall>(index, column) \<in> set (get_conversion_map T).
      distinct column \<and> '''' \<notin> set column \<and> (\<forall>v \<in> set column. 2 < length v) \<and>
      set column = {v \<in> set (column_cells T index). 2 < length v}) \<and>
   get_conversion_map [[''''], [''''], [''hello world''], [''hello world''], [''hi'']] =
     [(0, [''hello world''])]"
proof -
  have "distinct column \<and> '''' \<notin> set column \<and> (\<forall>v \<in> set column. 2 < length v) \<and>
      set column = {v \<in> set (column_cells T index). 2 < length v}"
    if "(index, column) \<in> set (get_conversion_map T)" for index column
  proof -
    have column: "column = ranking T index"
      using that by (simp add: conversion_map_entry)
    have set: "set column = {v \<in> set (column_cells T index). 2 < length v}"
      unfolding column set_ranking by (auto simp: counted_cells_def)
    then show ?thesis
      using distinct_ranking [of T index] column by auto
  qed
  then show ?thesis
    using get_conversion_map_hello by blast
qed

theorem conversion_map_columns_witness:
  "(0, [''plum'', ''pear'', ''kiwi'']) \<in>
     set (get_conversion_map [[''pear'', ''x''], [''plum''], [''kiwi'', ''yes''], [''plum'']]) \<and>
   distinct [''plum'', ''pear'', ''kiwi''] \<and>
   set [''plum'', ''pear'', ''kiwi''] =
     {v \<in> set (column_cells [[''pear'', ''x''], [''plum''], [''kiwi'', ''yes''], [''plum'']] 0).
        2 < length v}"
  using conversion_map_columns
    [of "[[''pear'', ''x''], [''plum''], [''kiwi'', ''yes''], [''plum'']]",
      THEN conjunct1, THEN bspec, of "(0, [''plum'', ''pear'', ''kiwi''])"]
  by (simp add: get_conversion_map_plum)



section \<open>The encoder and the round trip\<close>

text \<open>
  C4. When the conversion map was built from the table being encoded, \<open>.index\<close>
  finds every cell longer than two characters in the list of its column, at a valid
  position, so the \<open>ValueError\<close> of a failed lookup cannot occur and the encoder returns
  a table; a value that is not in the list of its column is left as it is.
\<close>

theorem encoder_lookup_succeeds:
  "\<exists>E. encode_rows (get_conversion_map T) T = Inr E \<and> length E = length T \<and>
     (\<forall>r < length T. length (E ! r) = length (T ! r) \<and>
        (\<forall>i < length (T ! r).
           (2 < length (T ! r ! i) \<longrightarrow>
              (\<exists>pos. list_index (default_get [] (get_conversion_map T) i) (T ! r ! i) = Some pos \<and>
                     pos < length (default_get [] (get_conversion_map T) i) \<and>
                     E ! r ! i = CHR ''&'' # str pos)) \<and>
           (T ! r ! i \<notin> set (default_get [] (get_conversion_map T) i) \<longrightarrow>
              E ! r ! i = T ! r ! i)))"
proof -
  obtain E where E: "encode_rows (get_conversion_map T) T = Inr E" "length E = length T"
    and cells: "\<And>r i. r < length T \<Longrightarrow> i < length (T ! r) \<Longrightarrow>
           if length (T ! r ! i) \<le> 2 then E ! r ! i = T ! r ! i
           else \<exists>pos. list_index (ranking T i) (T ! r ! i) = Some pos \<and>
                      pos < length (ranking T i) \<and> ranking T i ! pos = T ! r ! i \<and>
                      E ! r ! i = CHR ''&'' # str pos"
    and len: "\<And>r. r < length T \<Longrightarrow> length (E ! r) = length (T ! r)"
    using encode_built [of T] by metis
  have "(2 < length (T ! r ! i) \<longrightarrow>
              (\<exists>pos. list_index (ranking T i) (T ! r ! i) = Some pos \<and>
                     pos < length (ranking T i) \<and>
                     E ! r ! i = CHR ''&'' # str pos)) \<and>
           (T ! r ! i \<notin> set (ranking T i) \<longrightarrow> E ! r ! i = T ! r ! i)"
    if r: "r < length T" and i: "i < length (T ! r)" for r i
  proof (cases "length (T ! r ! i) \<le> 2")
    case True
    with cells [OF r i] show ?thesis by simp
  next
    case False
    with cells [OF r i] obtain pos where
      pos: "list_index (ranking T i) (T ! r ! i) = Some pos" "pos < length (ranking T i)"
        "ranking T i ! pos = T ! r ! i" "E ! r ! i = CHR ''&'' # str pos"
      by auto
    from pos(2,3) have "T ! r ! i \<in> set (ranking T i)"
      by (metis nth_mem)
    with pos show ?thesis by simp
  qed
  with E len show ?thesis
    unfolding conversion_map_column by simp
qed


theorem encoder_lookup_succeeds_witness:
  "2 < length ([[''abc'', ''hi''], [''abc'', '''']] ! 0 ! 0) \<and>
   '''' \<notin> set (default_get [] (get_conversion_map [[''abc'', ''hi''], [''abc'', '''']]) 1) \<and>
   encode_rows (get_conversion_map [[''abc'', ''hi''], [''abc'', '''']])
     [[''abc'', ''hi''], [''abc'', '''']] = Inr [[''&0'', ''hi''], [''&0'', '''']]"
  using encoder_lookup_succeeds [of "[[''abc'', ''hi''], [''abc'', '''']]"]
  by (simp add: get_conversion_map_def count_row_def count_cell_def default_get_def
      sorted_column_def py_sorted_reverse_def enumerate_eq_zip
      encode_row_def encode_cells.simps str_unfold digit_char_def)

text \<open>
  C1, as the code has it. For every table in which no cell of at most two characters
  begins with the marker, encoding the table with the map built from it succeeds, and
  decoding the result with that map, reloaded from its JSON form, gives back the
  table, cell for cell.
\<close>

theorem round_trip:
  assumes "\<forall>row \<in> set T. \<forall>v \<in> set row. length v \<le> 2 \<longrightarrow> \<not> startswith_marker v"
  shows "\<exists>E. encode_rows (get_conversion_map T) T = Inr E \<and>
             decode_rows (json_reload (get_conversion_map T)) E = Inr T"
  using assms by (rule decode_encoded)

theorem round_trip_witness:
  "\<exists>E. encode_rows (get_conversion_map [[''abc'', ''hi''], [''abc'', '''']])
          [[''abc'', ''hi''], [''abc'', '''']] = Inr E \<and>
        decode_rows (json_reload (get_conversion_map [[''abc'', ''hi''], [''abc'', '''']])) E =
          Inr [[''abc'', ''hi''], [''abc'', '''']]"
proof -
  have h: "\<forall>row \<in> set [[''abc'', ''hi''], [''abc'', '''']]. \<forall>v \<in> set row.
      length v \<le> 2 \<longrightarrow> \<not> startswith_marker v"
    by (simp add: startswith_marker_def)
  show ?thesis
    by (rule round_trip [OF h])
qed

text \<open>
  The claim as stated fails: a literal cell \<open>&0\<close> is kept by the encoder and then
  read as a reference by the decoder.
\<close>

theorem round_trip_counterexample:
  "encode_rows (get_conversion_map [[''abc''], [''&0'']]) [[''abc''], [''&0'']] =
     Inr [[''&0''], [''&0'']] \<and>
   decode_rows (json_reload (get_conversion_map [[''abc''], [''&0'']])) [[''&0''], [''&0'']] =
     Inr [[''abc''], [''abc'']]"
  by (simp add: get_conversion_map_def count_row_def count_cell_def default_get_def
      sorted_column_def py_sorted_reverse_def enumerate_eq_zip
      encode_row_def encode_cells.simps str_unfold digit_char_def
      decode_row_def decode_cells.simps decode_cell_def json_reload_def
      startswith_marker_def py_getitem_def
      py_int_def py_isspace_def py_isdigit_def digits_value_def digit_value_def)

lemma column_cells_cong:
  assumes "length T' = length T"
    and "\<forall>r < length T. (i < length (T' ! r) \<longleftrightarrow> i < length (T ! r)) \<and>
           (i < length (T ! r) \<longrightarrow> T' ! r ! i = T ! r ! i)"
  shows "column_cells T' i = column_cells T i"
proof -
  have "map (\<lambda>row. if i < length row then [row ! i] else []) T' =
        map (\<lambda>row. if i < length row then [row ! i] else []) T"
    using assms by (intro nth_equalityI) auto
  then show ?thesis
    by (simp add: column_cells_def)
qed

text \<open>
  C8. When a table is changed in column \<open>j\<close> only, the entry of every other column
  \<open>i\<close> in the built conversion map stays the same, and so does the encoded form of
  every cell of column \<open>i\<close>.
\<close>

theorem column_independence:
  assumes "length T' = length T"
    and "\<forall>r < length T. length (T' ! r) = length (T ! r) \<and>
           (\<forall>k < length (T ! r). k \<noteq> j \<longrightarrow> T' ! r ! k = T ! r ! k)"
    and "i \<noteq> j"
  shows "map_of (get_conversion_map T') i = map_of (get_conversion_map T) i \<and>
         (\<exists>E E'. encode_rows (get_conversion_map T) T = Inr E \<and>
                 encode_rows (get_conversion_map T') T' = Inr E' \<and>
                 (\<forall>r < length T. i < length (T ! r) \<longrightarrow> E' ! r ! i = E ! r ! i))"
proof -
  have same: "T' ! r ! i = T ! r ! i" "i < length (T' ! r)"
    if "r < length T" "i < length (T ! r)" for r
    using assms(2,3) that by simp_all
  have "column_cells T' i = column_cells T i"
    using assms by (intro column_cells_cong) simp_all
  then have counted: "counted_cells T' i = counted_cells T i"
    by (simp add: counted_cells_def)
  then have rank: "ranking T' i = ranking T i"
    by (simp add: ranking_def)
  have entry: "map_of (get_conversion_map T') i = map_of (get_conversion_map T) i"
    by (simp add: map_of_conversion_map counted rank)
  obtain E where E: "encode_rows (get_conversion_map T) T = Inr E"
    and cells: "\<And>r i. r < length T \<Longrightarrow> i < length (T ! r) \<Longrightarrow>
           if length (T ! r ! i) \<le> 2 then E ! r ! i = T ! r ! i
           else \<exists>pos. list_index (ranking T i) (T ! r ! i) = Some pos \<and>
                      pos < length (ranking T i) \<and> ranking T i ! pos = T ! r ! i \<and>
                      E ! r ! i = CHR ''&'' # str pos"
    using encode_built [of T] by metis
  obtain E' where E': "encode_rows (get_conversion_map T') T' = Inr E'"
    and cells': "\<And>r i. r < length T' \<Longrightarrow> i < length (T' ! r) \<Longrightarrow>
           if length (T' ! r ! i) \<le> 2 then E' ! r ! i = T' ! r ! i
           else \<exists>pos. list_index (ranking T' i) (T' ! r ! i) = Some pos \<and>
                      pos < length (ranking T' i) \<and> ranking T' i ! pos = T' ! r ! i \<and>
                      E' ! r ! i = CHR ''&'' # str pos"
    using encode_built [of T'] by metis
  have "E' ! r ! i = E ! r ! i" if r: "r < length T" and i: "i < length (T ! r)" for r
  proof -
    have r': "r < length T'" using r assms(1) by simp
    note c = cells [OF r i]
    note c' = cells' [OF r' same(2) [OF r i], unfolded rank same(1) [OF r i]]
    show ?thesis
    proof (cases "length (T ! r ! i) \<le> 2")
      case True
      with c c' show ?thesis by simp
    next
      case False
      with c obtain pos where pos: "list_index (ranking T i) (T ! r ! i) = Some pos"
        "E ! r ! i = CHR ''&'' # str pos" by auto
      from False c' obtain pos' where pos': "list_index (ranking T i) (T ! r ! i) = Some pos'"
        "E' ! r ! i = CHR ''&'' # str pos'" by auto
      from pos(1) pos'(1) have "pos' = pos" by simp
      with pos(2) pos'(2) show ?thesis by simp
    qed
  qed
  with entry E E' show ?thesis by blast
qed

theorem column_independence_witness:
  "map_of (get_conversion_map [[''abc'', ''other''], [''abc'', ''no'']]) 0 =
     map_of (get_conversion_map [[''abc'', ''xyz''], [''abc'', ''xyz'']]) 0 \<and>
   (\<exists>E E'. encode_rows (get_conversion_map [[''abc'', ''xyz''], [''abc'', ''xyz'']])
              [[''abc'', ''xyz''], [''abc'', ''xyz'']] = Inr E \<and>
           encode_rows (get_conversion_map [[''abc'', ''other''], [''abc'', ''no'']])
              [[''abc'', ''other''], [''abc'', ''no'']] = Inr E' \<and>
           E' ! 0 ! 0 = E ! 0 ! 0 \<and> E' ! 1 ! 0 = E ! 1 ! 0)"
proof -
  let ?T = "[[''abc'', ''xyz''], [''abc'', ''xyz'']]"
  let ?T' = "[[''abc'', ''other''], [''abc'', ''no'']]"
  have h: "\<forall>r < length ?T. length (?T' ! r) = length (?T ! r) \<and>
      (\<forall>k < length (?T ! r). k \<noteq> 1 \<longrightarrow> ?T' ! r ! k = ?T ! r ! k)"
    by (simp add: All_less_Suc)
  have "map_of (get_conversion_map ?T') 0 = map_of (get_conversion_map ?T) 0 \<and>
      (\<exists>E E'. encode_rows (get_conversion_map ?T) ?T = Inr E \<and>
              encode_rows (get_conversion_map ?T') ?T' = Inr E' \<and>
              (\<forall>r < length ?T. 0 < length (?T ! r) \<longrightarrow> E' ! r ! 0 = E ! r ! 0))"
    by (rule column_independence [where j = 1, OF _ h]) simp_all
  then obtain E E' where
    "map_of (get_conversion_map ?T') 0 = map_of (get_conversion_map ?T) 0"
    "encode_rows (get_conversion_map ?T) ?T = Inr E"
    "encode_rows (get_conversion_map ?T') ?T' = Inr E'"
    "\<forall>r < length ?T. 0 < length (?T ! r) \<longrightarrow> E' ! r ! 0 = E ! r ! 0"
    by (elim conjE exE)
  moreover from this(4) have "E' ! 0 ! 0 = E ! 0 ! 0" "E' ! 1 ! 0 = E ! 1 ! 0"
    by simp_all
  ultimately show ?thesis
    by (intro conjI exI [of _ E] exI [of _ E'])
qed

text \<open>
  C6. The encoder leaves every cell of at most two characters unchanged. When such a
  cell does not begin with the marker the decoder leaves it unchanged as well, so it
  passes through both directions unaltered. A row of such cells only is returned as it
  is by the encoder, and a row without marker cells is returned as it is by the decoder.
\<close>

theorem short_cells_pass_through:
  assumes "i < length row" and "length (row ! i) \<le> 2"
  shows "(\<forall>row'. encode_row conversion_map row = Inr row' \<longrightarrow>
            row' ! i = row ! i \<and>
            (\<not> startswith_marker (row ! i) \<longrightarrow>
               (\<forall>row''. decode_row loaded_map row' = Inr row'' \<longrightarrow> row'' ! i = row ! i))) \<and>
         ((\<forall>k < length row. length (row ! k) \<le> 2) \<longrightarrow> encode_row conversion_map row = Inr row) \<and>
         ((\<forall>k < length row. \<not> startswith_marker (row ! k)) \<longrightarrow> decode_row loaded_map row = Inr row)"
proof (intro conjI allI impI)
  fix row' assume enc: "encode_row conversion_map row = Inr row'"
  then have len: "length row' = length row" and
    "if i < 0 \<or> length (row ! i) \<le> 2 then row' ! i = row ! i
        else \<exists>pos. list_index (default_get [] conversion_map i) (row ! i) = Some pos \<and>
                   row' ! i = CHR ''&'' # str pos"
    unfolding encode_row_def encode_cells_Inr_iff using assms(1) by simp_all
  with assms(2) show same: "row' ! i = row ! i"
    by simp
  fix row'' assume "\<not> startswith_marker (row ! i)" and "decode_row loaded_map row' = Inr row''"
  then have plain: "\<not> startswith_marker (row' ! i)"
    and cells: "\<forall>k < length row'. if k < 0 then row'' ! k = row' ! k
                 else decode_cell loaded_map k (row' ! k) = Inr (row'' ! k)"
    unfolding decode_row_def decode_cells_Inr_iff using same by simp_all
  from assms(1) len have "i < length row'"
    by simp
  with cells have "decode_cell loaded_map i (row' ! i) = Inr (row'' ! i)"
    by (simp split: if_splits)
  then show "row'' ! i = row ! i"
    using same plain by (simp add: decode_cell_plain)
next
  assume "\<forall>k < length row. length (row ! k) \<le> 2"
  then show "encode_row conversion_map row = Inr row"
    unfolding encode_row_def encode_cells_Inr_iff by simp
next
  assume "\<forall>k < length row. \<not> startswith_marker (row ! k)"
  then show "decode_row loaded_map row = Inr row"
    unfolding decode_row_def decode_cells_Inr_iff by (simp add: decode_cell_plain)
qed

theorem short_cells_pass_through_witness:
  "encode_row [(1, [''abc''])] [''hi'', ''abc''] = Inr [''hi'', ''&0''] \<and>
   [''hi'', ''&0''] ! 0 = [''hi'', ''abc''] ! 0 \<and>
   \<not> startswith_marker ([''hi'', ''abc''] ! 0) \<and>
   decode_row (json_reload [(1, [''abc''])]) [''hi'', ''&0''] = Inr [''hi'', ''abc''] \<and>
   encode_row [(1, [''abc''])] [''hi'', ''''] = Inr [''hi'', ''''] \<and>
   decode_row (json_reload [(1, [''abc''])]) [''hi'', ''''] = Inr [''hi'', '''']"
  using short_cells_pass_through [of 0 "[''hi'', ''abc'']" "[(1, [''abc''])]"
      "json_reload [(1, [''abc''])]"]
    short_cells_pass_through [of 0 "[''hi'', '''']" "[(1, [''abc''])]"
      "json_reload [(1, [''abc''])]"]
  by (simp add: default_get_def
      encode_row_def encode_cells.simps str_unfold digit_char_def
      decode_row_def decode_cells.simps decode_cell_def json_reload_def
      startswith_marker_def py_getitem_def
      py_int_def py_isspace_def py_isdigit_def digits_value_def digit_value_def)

section \<open>The compressed file\<close>

text \<open>What the decoder reads from the file that the compressor writes.\<close>

lemma decompress_compressed:
  assumes "encode_rows (get_conversion_map T) T = Inr E"
  shows "compress_csv_and_save T =
           Inr (json_dump (get_conversion_map T) @ [CR, LF] @ concat (map writerow E))"
    and "readline (json_dump (get_conversion_map T) @ [CR, LF] @ concat (map writerow E)) =
           (json_dump (get_conversion_map T) @ [CR, LF], concat (map writerow E))"
    and "json_loads (json_dump (get_conversion_map T) @ [CR, LF]) =
           Some (json_reload (get_conversion_map T))"
    and "decompress_file_and_save
           (json_dump (get_conversion_map T) @ [CR, LF] @ concat (map writerow E)) =
         decode_rows (json_reload (get_conversion_map T)) E"
proof -
  let ?map = "json_dump (get_conversion_map T)"
  show "compress_csv_and_save T = Inr (?map @ [CR, LF] @ concat (map writerow E))"
    by (simp add: compress_csv_and_save_def assms writerow_def)
  show line: "readline (?map @ [CR, LF] @ concat (map writerow E)) =
      (?map @ [CR, LF], concat (map writerow E))"
    using readline_line_end [of ?map "concat (map writerow E)"]
      json_dump_no_line_end [of "get_conversion_map T"]
    by simp
  show loads: "json_loads (?map @ [CR, LF]) = Some (json_reload (get_conversion_map T))"
    by (rule json_loads_dumped) (rule conversion_map_distinct)
  show "decompress_file_and_save (?map @ [CR, LF] @ concat (map writerow E)) =
      decode_rows (json_reload (get_conversion_map T)) E"
    unfolding decompress_file_and_save_def line
    by (simp add: loads csv_reader_written)
qed

text \<open>
  C10, as the code has it. The compressor writes one row without fields between the
  dumped conversion map and the first transformed row; its text is the bare line end
  \<open>\r\n\<close>, and the dumped map holds no line end of its own. \<open>readline\<close> in the
  decoder therefore takes the map together with that line end, and \<open>csv.reader\<close>
  starts at the first transformed row: the rows it reads are exactly the transformed
  rows, the decoder decodes these, and no empty row comes before them.
\<close>

theorem empty_row_ends_map_line:
  "\<exists>E. encode_rows (get_conversion_map T) T = Inr E \<and>
       compress_csv_and_save T =
         Inr (json_dump (get_conversion_map T) @ [CR, LF] @ concat (map writerow E)) \<and>
       writerow [] = [CR, LF] \<and>
       readline (json_dump (get_conversion_map T) @ [CR, LF] @ concat (map writerow E)) =
         (json_dump (get_conversion_map T) @ [CR, LF], concat (map writerow E)) \<and>
       csv_reader (concat (map writerow E)) = Inr E \<and>
       decompress_file_and_save
           (json_dump (get_conversion_map T) @ [CR, LF] @ concat (map writerow E)) =
         decode_rows (json_reload (get_conversion_map T)) E"
proof -
  obtain E where E: "encode_rows (get_conversion_map T) T = Inr E"
    using encode_built [of T] by metis
  have "writerow [] = [CR, LF]"
    by (simp add: writerow_def)
  with E decompress_compressed(1,2,4) [OF E] csv_reader_written [of E] show ?thesis
    by (intro exI [of _ E] conjI)
qed

text \<open>
  The claim as stated fails: for the table with the one row \<open>["abc"]\<close> the compressed
  file is the map, a line end and the row \<open>&0\<close>, and the decoder writes the one row
  \<open>["abc"]\<close>, not an empty row followed by it.
\<close>

theorem no_extra_empty_row_counterexample:
  "compress_csv_and_save [[''abc'']] =
     Inr (json_dump [(0, [''abc''])] @ [CR, LF] @ ''&0'' @ [CR, LF]) \<and>
   decompress_file_and_save (json_dump [(0, [''abc''])] @ [CR, LF] @ ''&0'' @ [CR, LF]) =
     Inr [[''abc'']] \<and>
   decompress_file_and_save (json_dump [(0, [''abc''])] @ [CR, LF] @ ''&0'' @ [CR, LF]) \<noteq>
     Inr [[], [''abc'']]"
  by code_simp

text \<open>
  The two scripts together: for every table in which no cell of at most two characters
  begins with the marker, the compressor writes a file from which the decompressor
  writes the rows of the table.
\<close>

proposition compressed_file_round_trip:
  assumes "\<forall>row \<in> set T. \<forall>v \<in> set row. length v \<le> 2 \<longrightarrow> \<not> startswith_marker v"
  shows "\<exists>file. compress_csv_and_save T = Inr file \<and> decompress_file_and_save file = Inr T"
proof -
  obtain E where E: "encode_rows (get_conversion_map T) T = Inr E"
    and T: "decode_rows (json_reload (get_conversion_map T)) E = Inr T"
    using decode_encoded [OF assms] by blast
  show ?thesis
    using decompress_compressed(1,4) [OF E] T by simp
qed

end
